theory Spec2Isabelle
  imports Main "HOL-Library.Finite_Map" "HOL-Library.Sublist"
begin

section \<open>Data model of \<^verbatim>\<open>tox_poetry_installer/utilities.py\<close>\<close>

text \<open>
  A requirement of a package (Poetry's \<^verbatim>\<open>Dependency\<close>). The traversal reads only
  its \<^verbatim>\<open>name\<close>; \<^verbatim>\<open>find_project_dependencies\<close> also asks \<^verbatim>\<open>is_optional()\<close>.
  The field is called \<open>dep_name\<close> because the package record below has a field
  \<open>name\<close> of its own.
\<close>

record dependency =
  dep_name :: string
  is_optional :: bool

text \<open>
  A locked package (Poetry's \<^verbatim>\<open>Package\<close>), with the attributes the module reads.
  \<^verbatim>\<open>python_constraint.allows(v)\<close> is the field \<open>python_constraint\<close> applied to the
  version \<open>v\<close>; \<^verbatim>\<open>platform\<close> is \<open>None\<close> when the package is not bound to a platform.
\<close>

record package =
  name :: string
  version :: string
  python_constraint :: "string \<Rightarrow> bool"
  platform :: "string option"
  requires :: "dependency list"

text \<open>\<^verbatim>\<open>PackageMap\<close>: a dictionary from package name to package, hence a finite map.\<close>

type_synonym PackageMap = "(string, package) fmap"

text \<open>
  The values the module takes from its surroundings and that are not part of the
  file: \<^verbatim>\<open>_poetry.Provider.UNSAFE_PACKAGES\<close>, \<^verbatim>\<open>constants.PEP508_VERSION_DELIMITERS\<close>,
  \<^verbatim>\<open>constants.PLATFORM_VERSION\<close> and \<^verbatim>\<open>sys.platform\<close>; and \<open>lower\<close>, Python's
  \<^verbatim>\<open>str.lower()\<close>, whose case table (Unicode's) is no part of the file either. They are
  parameters of every function below: what is proved holds for every set of unsafe
  names, every list of delimiters and every lowercasing function.
\<close>

record environment =
  UNSAFE_PACKAGES :: "string set"
  PEP508_VERSION_DELIMITERS :: "string list"
  PLATFORM_VERSION :: string
  sys_platform :: string
  lower :: "string \<Rightarrow> string"

text \<open>
  The exceptions of the module. \<open>KeyError k\<close> is Python's failed dictionary lookup of
  the key \<open>k\<close>; the three others are the exceptions of \<^verbatim>\<open>tox_poetry_installer.exceptions\<close>
  that the module raises, each carrying the name its message quotes.
\<close>

datatype error =
    KeyError string
  | LockedDepVersionConflictError string
  | LockedDepNotFoundError string
  | ExtraNotFoundError string

text \<open>How a call of the inner helper ends: it returns, or it raises.\<close>

datatype outcome = Returned | Raised error

text \<open>
  The variables of one call of \<^verbatim>\<open>identify_transients\<close> that the inner helper
  \<^verbatim>\<open>find_deps_of_deps\<close> mutates: the set \<^verbatim>\<open>searched\<close> and the list \<^verbatim>\<open>transients\<close>.
  The field \<open>calls\<close> is not a variable of the program: it lists, in order, the
  names \<^verbatim>\<open>find_deps_of_deps\<close> was called with, so that statements about how often a
  name is visited can be written. No branch of the model reads it.
\<close>

record state =
  searched :: "string set"
  transients :: "package list"
  calls :: "string list"

definition initial_state :: state where
  "initial_state = \<lparr>searched = {}, transients = [], calls = []\<rparr>"

text \<open>The first statement of the helper, \<^verbatim>\<open>searched.add(name)\<close>, and the record of the call.\<close>

definition enter :: "string \<Rightarrow> state \<Rightarrow> state" where
  "enter nm st = st\<lparr>searched := insert nm (searched st), calls := calls st @ [nm]\<rparr>"

section \<open>The traversal\<close>

text \<open>
  \<^verbatim>\<open>find_deps_of_deps\<close> (lines 73 to 117) and its \<^verbatim>\<open>for\<close> loop over
  \<^verbatim>\<open>package.requires\<close> (lines 104 to 113), which is \<open>requires_loop\<close>. The state is
  passed in and returned together with the outcome: the helper mutates variables of the
  enclosing function, so what it did before raising is still there afterwards. The
  reporter calls only print and are left out.
\<close>

function find_deps_of_deps ::
    "environment \<Rightarrow> PackageMap \<Rightarrow> string list \<Rightarrow> string \<Rightarrow> state \<Rightarrow> outcome \<times> state"
  and requires_loop ::
    "environment \<Rightarrow> PackageMap \<Rightarrow> string list \<Rightarrow> dependency list \<Rightarrow> state \<Rightarrow> outcome \<times> state"
where
  "find_deps_of_deps env packages allow_missing nm st =
     (if nm \<in> UNSAFE_PACKAGES env then (Returned, enter nm st)
      else case fmlookup packages nm of
        None \<Rightarrow>
          if nm \<in> set allow_missing then (Returned, enter nm st)
          else (Raised (KeyError nm), enter nm st)
      | Some pkg \<Rightarrow>
          if \<not> python_constraint pkg (PLATFORM_VERSION env) then (Returned, enter nm st)
          else if platform pkg \<noteq> None \<and> platform pkg \<noteq> Some (sys_platform env)
            then (Returned, enter nm st)
          else (case requires_loop env packages allow_missing (requires pkg) (enter nm st) of
                  (Returned, st') \<Rightarrow> (Returned, st'\<lparr>transients := transients st' @ [pkg]\<rparr>)
                | (Raised err, st') \<Rightarrow> (Raised err, st')))"
| "requires_loop env packages allow_missing [] st = (Returned, st)"
| "requires_loop env packages allow_missing (dep # deps) st =
     (if dep_name dep \<notin> searched st then
        (case find_deps_of_deps env packages allow_missing (dep_name dep) st of
           (Returned, st') \<Rightarrow> requires_loop env packages allow_missing deps st'
         | (Raised err, st') \<Rightarrow> (Raised err, st'))
      else requires_loop env packages allow_missing deps st)"
  by pat_completeness auto

lemma searched_enter: "searched (enter nm st) = insert nm (searched st)"
  by (simp add: enter_def)

lemma transients_enter: "transients (enter nm st) = transients st"
  by (simp add: enter_def)

lemma calls_enter: "calls (enter nm st) = calls st @ [nm]"
  by (simp add: enter_def)

text \<open>
  The recursion is nested: the loop goes on in the state the recursive call left. Where
  the helper is defined, it only adds to \<open>searched\<close>; this is what the termination proof
  needs.
\<close>

lemma searched_mono_dom:
  "find_deps_of_deps_requires_loop_dom (Inl (env, packages, allow_missing, nm, st)) \<Longrightarrow>
     searched st \<subseteq> searched (snd (find_deps_of_deps env packages allow_missing nm st))"
  "find_deps_of_deps_requires_loop_dom (Inr (env, packages, allow_missing, deps, st)) \<Longrightarrow>
     searched st \<subseteq> searched (snd (requires_loop env packages allow_missing deps st))"
proof (induct rule: find_deps_of_deps_requires_loop.pinduct)
  case (1 env packages allow_missing nm st)
  show ?case
    using 1
    by (auto simp: find_deps_of_deps.psimps searched_enter
             split: option.splits prod.splits outcome.splits)
next
  case (2 env packages allow_missing st)
  then show ?case by (simp add: requires_loop.psimps)
next
  case (3 env packages allow_missing dep deps st)
  show ?case
    using 3
    by (auto simp: requires_loop.psimps split: prod.splits outcome.splits; blast)
qed

lemma card_diff_mono:
  "finite D \<Longrightarrow> s \<subseteq> s' \<Longrightarrow> card (D - s') \<le> card (D - s)"
  by (rule card_mono) auto

text \<open>
  Termination: the number of keys of the dictionary that are not yet in \<open>searched\<close>
  never grows and drops whenever the helper is entered with a new key; a call with a
  name that is no key enters no loop; the loop itself walks down its list.
\<close>

termination find_deps_of_deps
proof (relation "measures
   [(\<lambda>x. case x of
        Inl (env, packages, allow_missing, nm, st) \<Rightarrow>
          card (fmdom' packages - insert nm (searched st))
      | Inr (env, packages, allow_missing, deps, st) \<Rightarrow>
          card (fmdom' packages - searched st)),
    (\<lambda>x. case x of
        Inl (env, packages, allow_missing, nm, st) \<Rightarrow>
          (if nm \<in> fmdom' packages then 1 else 0)
      | Inr (env, packages, allow_missing, deps, st) \<Rightarrow> 0),
    (\<lambda>x. case x of
        Inl (env, packages, allow_missing, nm, st) \<Rightarrow> 0
      | Inr (env, packages, allow_missing, deps, st) \<Rightarrow> length deps)]", goal_cases)
  case 1
  then show ?case by simp
next
  case (2 env packages allow_missing nm st pkg)
  then show ?case by (simp add: searched_enter fmdom'I)
next
  case (3 env packages allow_missing dep deps st)
  show ?case
  proof (cases "dep_name dep \<in> fmdom' packages")
    case True
    with 3 have "dep_name dep \<in> fmdom' packages - searched st"
      by simp
    then have "0 < card (fmdom' packages - searched st)"
      by (metis card_gt_0_iff finite_Diff finite_fmdom' empty_iff)
    with True 3 show ?thesis by simp
  next
    case False
    then have "fmdom' packages - insert (dep_name dep) (searched st) = fmdom' packages - searched st"
      by auto
    with False show ?thesis by simp
  qed
next
  case (4 env packages allow_missing dep deps st x y)
  from 4(4) have "searched st \<subseteq> searched (snd (find_deps_of_deps env packages allow_missing (dep_name dep) st))"
    by (rule searched_mono_dom(1))
  with 4(2) have "searched st \<subseteq> searched y"
    by (metis snd_conv)
  then have "card (fmdom' packages - searched y) \<le> card (fmdom' packages - searched st)"
    by (simp add: card_diff_mono)
  then show ?case by auto
next
  case (5 env packages allow_missing dep deps st)
  then show ?case by simp
qed

declare find_deps_of_deps.simps [simp del]

section \<open>\<^verbatim>\<open>identify_transients\<close>\<close>

text \<open>
  The handler of lines 121 to 138. \<^verbatim>\<open>delimiter in dependency_name\<close> is Python's
  substring test, \<^const>\<open>sublist\<close> on character lists.
\<close>

definition on_key_error :: "environment \<Rightarrow> string \<Rightarrow> error + package list" where
  "on_key_error env dependency_name =
     (if dependency_name \<in> UNSAFE_PACKAGES env then Inr []
      else if list_ex (\<lambda>delimiter. sublist delimiter dependency_name)
                (PEP508_VERSION_DELIMITERS env)
        then Inl (LockedDepVersionConflictError dependency_name)
      else Inl (LockedDepNotFoundError dependency_name))"

text \<open>
  Lines 119 to 140. The \<^verbatim>\<open>try\<close> block holds both the lookup of the root,
  \<^verbatim>\<open>packages[dependency_name]\<close>, and the whole traversal; \<^verbatim>\<open>except KeyError\<close> catches a
  \<open>KeyError\<close> of either. The helper is called with the \<^verbatim>\<open>name\<close> attribute of the
  package found, not with \<^verbatim>\<open>dependency_name\<close>.
\<close>

definition identify_transients ::
    "environment \<Rightarrow> PackageMap \<Rightarrow> string \<Rightarrow> string list \<Rightarrow> error + package list" where
  "identify_transients env packages dependency_name allow_missing =
     (case fmlookup packages dependency_name of
        None \<Rightarrow> on_key_error env dependency_name
      | Some root \<Rightarrow>
          (case find_deps_of_deps env packages allow_missing (name root) initial_state of
             (Returned, st) \<Rightarrow> Inr (transients st)
           | (Raised (KeyError k), st) \<Rightarrow> on_key_error env dependency_name
           | (Raised err, st) \<Rightarrow> Inl err))"

section \<open>The builders\<close>

text \<open>
  What the builders read of the Poetry object: \<^verbatim>\<open>poetry.package.name\<close>,
  \<^verbatim>\<open>poetry.package.requires\<close>, \<^verbatim>\<open>poetry.package.extras\<close> and the keys of the
  \<^verbatim>\<open>dev-dependencies\<close> table of \<^verbatim>\<open>pyproject.toml\<close> (the empty list when the table is
  missing); and of the Tox environment: \<^verbatim>\<open>venv.name\<close>, \<^verbatim>\<open>venv.envconfig.extras\<close> and
  \<^verbatim>\<open>venv.envconfig.locked_deps\<close>.
\<close>

record poetry =
  package_name :: string
  package_requires :: "dependency list"
  package_extras :: "(string, dependency list) fmap"
  dev_dependencies :: "string list"

record venv =
  venv_name :: string
  extras :: "string list"
  locked_deps :: "string list"

text \<open>
  \<^verbatim>\<open>find_env_dependencies\<close> (lines 252 to 258): the loop appends the result of
  \<^verbatim>\<open>identify_transients\<close> for each locked dependency, lowercased; an exception ends it.
\<close>

fun env_loop ::
    "environment \<Rightarrow> poetry \<Rightarrow> PackageMap \<Rightarrow> string list \<Rightarrow> package list \<Rightarrow> error + package list"
where
  "env_loop env po packages [] dependencies = Inr dependencies"
| "env_loop env po packages (dep # deps) dependencies =
     (case identify_transients env packages (lower env dep) [package_name po] of
        Inl err \<Rightarrow> Inl err
      | Inr ts \<Rightarrow> env_loop env po packages deps (dependencies @ ts))"

definition find_env_dependencies ::
    "environment \<Rightarrow> venv \<Rightarrow> poetry \<Rightarrow> PackageMap \<Rightarrow> error + package list" where
  "find_env_dependencies env ve po packages = env_loop env po packages (locked_deps ve) []"

text \<open>
  \<^verbatim>\<open>find_dev_dependencies\<close> (lines 230 to 238): the same loop over the names of the
  dev dependencies, which are passed on as they are written.
\<close>

fun dev_loop ::
    "environment \<Rightarrow> poetry \<Rightarrow> PackageMap \<Rightarrow> string list \<Rightarrow> package list \<Rightarrow> error + package list"
where
  "dev_loop env po packages [] dependencies = Inr dependencies"
| "dev_loop env po packages (dep # deps) dependencies =
     (case identify_transients env packages dep [package_name po] of
        Inl err \<Rightarrow> Inl err
      | Inr ts \<Rightarrow> dev_loop env po packages deps (dependencies @ ts))"

definition find_dev_dependencies ::
    "environment \<Rightarrow> poetry \<Rightarrow> PackageMap \<Rightarrow> error + package list" where
  "find_dev_dependencies env po packages = dev_loop env po packages (dev_dependencies po) []"

text \<open>
  \<^verbatim>\<open>find_project_dependencies\<close> (lines 190 to 216). \<open>lookup_all\<close> is the list
  comprehension \<^verbatim>\<open>[packages[item.name] for item in items]\<close>, which raises \<open>KeyError\<close> at
  the first name that is no key. In the loop over the extras, a \<open>KeyError\<close> of either
  \<^verbatim>\<open>poetry.package.extras[extra]\<close> or the comprehension becomes \<open>ExtraNotFoundError\<close>.
\<close>

fun lookup_all :: "PackageMap \<Rightarrow> dependency list \<Rightarrow> error + package list" where
  "lookup_all packages [] = Inr []"
| "lookup_all packages (item # items) =
     (case fmlookup packages (dep_name item) of
        None \<Rightarrow> Inl (KeyError (dep_name item))
      | Some pkg \<Rightarrow>
          (case lookup_all packages items of
             Inl err \<Rightarrow> Inl err
           | Inr pkgs \<Rightarrow> Inr (pkg # pkgs)))"

fun extras_loop ::
    "poetry \<Rightarrow> PackageMap \<Rightarrow> string list \<Rightarrow> package list \<Rightarrow> error + package list"
where
  "extras_loop po packages [] extra_dependencies = Inr extra_dependencies"
| "extras_loop po packages (extra # rest) extra_dependencies =
     (case fmlookup (package_extras po) extra of
        None \<Rightarrow> Inl (ExtraNotFoundError extra)
      | Some items \<Rightarrow>
          (case lookup_all packages items of
             Inl (KeyError k) \<Rightarrow> Inl (ExtraNotFoundError extra)
           | Inl err \<Rightarrow> Inl err
           | Inr pkgs \<Rightarrow> extras_loop po packages rest (extra_dependencies @ pkgs)))"

fun project_loop ::
    "environment \<Rightarrow> poetry \<Rightarrow> PackageMap \<Rightarrow> package list \<Rightarrow> package list \<Rightarrow> error + package list"
where
  "project_loop env po packages [] dependencies = Inr dependencies"
| "project_loop env po packages (dep # deps) dependencies =
     (case identify_transients env packages (lower env (name dep)) [package_name po] of
        Inl err \<Rightarrow> Inl err
      | Inr ts \<Rightarrow> project_loop env po packages deps (dependencies @ ts))"

definition find_project_dependencies ::
    "environment \<Rightarrow> venv \<Rightarrow> poetry \<Rightarrow> PackageMap \<Rightarrow> error + package list" where
  "find_project_dependencies env ve po packages =
     (case lookup_all packages (filter (\<lambda>item. \<not> is_optional item) (package_requires po)) of
        Inl err \<Rightarrow> Inl err
      | Inr base_dependencies \<Rightarrow>
          (case extras_loop po packages (extras ve) [] of
             Inl err \<Rightarrow> Inl err
           | Inr extra_dependencies \<Rightarrow>
               project_loop env po packages (base_dependencies @ extra_dependencies) []))"

section \<open>Notions used in the statements\<close>

text \<open>
  A package passes the two tests of lines 95 and 99: its interpreter constraint admits
  the running version, and it names no platform or the running one.
\<close>

definition compatible :: "environment \<Rightarrow> package \<Rightarrow> bool" where
  "compatible env pkg \<longleftrightarrow>
     python_constraint pkg (PLATFORM_VERSION env) \<and>
     (platform pkg = None \<or> platform pkg = Some (sys_platform env))"

text \<open>
  The helper, called with \<open>nm\<close>, reaches its \<^verbatim>\<open>else\<close> branch with the package \<open>pkg\<close>:
  the name is not unsafe, it is a key of the store, and the package is compatible. These
  are the calls that walk the requirements and append the package.
\<close>

definition expands :: "environment \<Rightarrow> PackageMap \<Rightarrow> string \<Rightarrow> package \<Rightarrow> bool" where
  "expands env packages nm pkg \<longleftrightarrow>
     nm \<notin> UNSAFE_PACKAGES env \<and> fmlookup packages nm = Some pkg \<and> compatible env pkg"

text \<open>
  The store as the lockfile loader builds it: every package is filed under its own name.
\<close>

definition keyed_by_name :: "PackageMap \<Rightarrow> bool" where
  "keyed_by_name packages \<longleftrightarrow> fmpred (\<lambda>k pkg. name pkg = k) packages"

text \<open>
  The graph of the store: an edge from every key to each name its package requires.
  \<open>walk_edge\<close> keeps the edges that leave a name at which the helper walks the
  requirements.
\<close>

definition requires_edge :: "PackageMap \<Rightarrow> (string \<times> string) set" where
  "requires_edge packages =
     {(n, d). \<exists>pkg. fmlookup packages n = Some pkg \<and> d \<in> dep_name ` set (requires pkg)}"

definition walk_edge :: "environment \<Rightarrow> PackageMap \<Rightarrow> (string \<times> string) set" where
  "walk_edge env packages =
     {(n, d). \<exists>pkg. expands env packages n pkg \<and> d \<in> dep_name ` set (requires pkg)}"

text \<open>
  A name the helper can be called with without raising: it is unsafe, or a key of the
  store, or allowed to be missing.
\<close>

definition resolvable :: "environment \<Rightarrow> PackageMap \<Rightarrow> string list \<Rightarrow> string \<Rightarrow> bool" where
  "resolvable env packages allow_missing nm \<longleftrightarrow>
     nm \<in> UNSAFE_PACKAGES env \<or> nm \<in> fmdom' packages \<or> nm \<in> set allow_missing"

definition requirements_resolvable :: "environment \<Rightarrow> PackageMap \<Rightarrow> string list \<Rightarrow> bool" where
  "requirements_resolvable env packages allow_missing \<longleftrightarrow>
     (\<forall>k pkg d. fmlookup packages k = Some pkg \<longrightarrow> d \<in> set (requires pkg) \<longrightarrow>
        resolvable env packages allow_missing (dep_name d))"

text \<open>
  Post-order: the package of every requirement of a package of the list stands earlier
  in the list.
\<close>

definition deps_first :: "PackageMap \<Rightarrow> package list \<Rightarrow> bool" where
  "deps_first packages ts \<longleftrightarrow>
     (\<forall>i < length ts. \<forall>d \<in> set (requires (ts ! i)).
        \<exists>j < i. fmlookup packages (dep_name d) = Some (ts ! j))"

text \<open>
  Below \<open>nm\<close> the graph holds only names at which the helper walks on (keys of the
  store that are safe and compatible), and no cycle.
\<close>

definition acyclic_below :: "environment \<Rightarrow> PackageMap \<Rightarrow> string \<Rightarrow> bool" where
  "acyclic_below env packages nm \<longleftrightarrow>
     (\<forall>m. (nm, m) \<in> (requires_edge packages)\<^sup>* \<longrightarrow>
        (\<exists>p. expands env packages m p) \<and> (m, m) \<notin> (requires_edge packages)\<^sup>+)"

text \<open>
  The conditions on the part of the graph that can be reached from \<open>nm\<close> along
  \<^verbatim>\<open>requires\<close>: it holds no cycle, no unsafe name and no package that is incompatible
  with the running interpreter or platform. And, separately: every name in it is a key
  of the store, that is, every requirement is locked.
\<close>

definition acyclic_safe_compatible :: "environment \<Rightarrow> PackageMap \<Rightarrow> string \<Rightarrow> bool" where
  "acyclic_safe_compatible env packages nm \<longleftrightarrow>
     (\<forall>m. (nm, m) \<in> (requires_edge packages)\<^sup>* \<longrightarrow>
        (m, m) \<notin> (requires_edge packages)\<^sup>+ \<and>
        m \<notin> UNSAFE_PACKAGES env \<and>
        (\<forall>pkg. fmlookup packages m = Some pkg \<longrightarrow> compatible env pkg))"

definition requirements_locked :: "PackageMap \<Rightarrow> string \<Rightarrow> bool" where
  "requirements_locked packages nm \<longleftrightarrow>
     (\<forall>m. (nm, m) \<in> (requires_edge packages)\<^sup>* \<longrightarrow> m \<in> fmdom' packages)"

text \<open>
  The record of calls agrees with \<open>searched\<close> and names nothing twice; and the names
  whose package is already in \<open>transients\<close>.
\<close>

definition calls_ok :: "state \<Rightarrow> bool" where
  "calls_ok st \<longleftrightarrow> distinct (calls st) \<and> set (calls st) = searched st"

definition finished :: "PackageMap \<Rightarrow> state \<Rightarrow> string set" where
  "finished packages st = {m. \<exists>p \<in> set (transients st). fmlookup packages m = Some p}"

section \<open>Example inputs\<close>

text \<open>
  The lowercasing of the examples. On a string of ASCII characters it is
  \<^verbatim>\<open>str.lower()\<close>: the letters A to Z become a to z and every other ASCII character
  stays. It is applied to ASCII names only; on other characters it says nothing about
  \<^verbatim>\<open>str.lower()\<close>.
\<close>

definition ascii_lower_char :: "char \<Rightarrow> char" where
  "ascii_lower_char c =
     (case map_of (zip ''ABCDEFGHIJKLMNOPQRSTUVWXYZ'' ''abcdefghijklmnopqrstuvwxyz'') c of
        Some l \<Rightarrow> l
      | None \<Rightarrow> c)"

definition ascii_lower :: "string \<Rightarrow> string" where
  "ascii_lower s = map ascii_lower_char s"

text \<open>
  An environment with the values Poetry and the plugin use and the lowercasing above,
  and a package that any interpreter on any platform accepts, with the given
  requirements.
\<close>

definition example_env :: environment where
  "example_env = \<lparr>UNSAFE_PACKAGES = {''setuptools'', ''distribute'', ''pip'', ''wheel''},
     PEP508_VERSION_DELIMITERS = [''~='', ''=='', ''!='', ''>'', ''<''],
     PLATFORM_VERSION = ''3.8.5'', sys_platform = ''linux'', lower = ascii_lower\<rparr>"

definition mk_package :: "string \<Rightarrow> string list \<Rightarrow> package" where
  "mk_package nm deps = \<lparr>name = nm, version = ''1.0.0'', python_constraint = (\<lambda>v. True),
     platform = None,
     requires = map (\<lambda>d. \<lparr>dep_name = d, is_optional = False\<rparr>) deps\<rparr>"

text \<open>
  The two stores of the examples: the chain \<open>a\<close>, \<open>b\<close>, \<open>c\<close>, and the cycle of
  \<open>a\<close> and \<open>b\<close>.
\<close>

definition chain_store :: PackageMap where
  "chain_store = fmap_of_list
     [(''a'', mk_package ''a'' [''b'']), (''b'', mk_package ''b'' [''c'']),
      (''c'', mk_package ''c'' [])]"

definition cycle_store :: PackageMap where
  "cycle_store = fmap_of_list
     [(''a'', mk_package ''a'' [''b'']), (''b'', mk_package ''b'' [''a''])]"

text \<open>A store whose only package requires a name that is no key of it.\<close>

definition dangling_store :: PackageMap where
  "dangling_store = fmap_of_list [(''a'', mk_package ''a'' [''b''])]"

text \<open>
  A store in which the missing name lies three requirements below the root: \<open>a\<close>
  requires \<open>b\<close> and \<open>e\<close>, \<open>b\<close> requires \<open>c\<close>, \<open>c\<close> requires \<open>d\<close>, and
  \<open>d\<close> is no key.
\<close>

definition deep_store :: PackageMap where
  "deep_store = fmap_of_list
     [(''a'', mk_package ''a'' [''b'', ''e'']), (''b'', mk_package ''b'' [''c'']),
      (''c'', mk_package ''c'' [''d'']), (''e'', mk_package ''e'' [])]"

text \<open>
  A store with the one package \<open>foo\<close>, a project that declares the dev dependency
  \<open>Foo\<close>, and a Tox environment that lists the locked dependency \<open>Foo\<close>.
\<close>

definition foo_store :: PackageMap where
  "foo_store = fmap_of_list [(''foo'', mk_package ''foo'' [])]"

definition foo_poetry :: poetry where
  "foo_poetry = \<lparr>package_name = ''myproject'', package_requires = [],
     package_extras = fmempty, dev_dependencies = [''Foo'']\<rparr>"

definition foo_venv :: venv where
  "foo_venv = \<lparr>venv_name = ''py38'', extras = [], locked_deps = [''Foo'']\<rparr>"

text \<open>
  A store in which \<open>a\<close> requires the unsafe \<open>pip\<close> and then \<open>c\<close>; \<open>pip\<close>
  itself requires \<open>x\<close>.
\<close>

definition unsafe_store :: PackageMap where
  "unsafe_store = fmap_of_list
     [(''a'', mk_package ''a'' [''pip'', ''c'']), (''pip'', mk_package ''pip'' [''x'']),
      (''c'', mk_package ''c'' []), (''x'', mk_package ''x'' [])]"

text \<open>
  A store in which \<open>a\<close> requires \<open>r\<close>, \<open>w\<close> and \<open>c\<close>. The package \<open>r\<close> admits
  no interpreter and requires \<open>c\<close> and \<open>x\<close>; the package \<open>w\<close> is bound to another
  platform and requires \<open>y\<close>.
\<close>

definition pruned_store :: PackageMap where
  "pruned_store = fmap_of_list
     [(''a'', mk_package ''a'' [''r'', ''w'', ''c'']),
      (''r'', (mk_package ''r'' [''c'', ''x''])\<lparr>python_constraint := (\<lambda>v. False)\<rparr>),
      (''w'', (mk_package ''w'' [''y''])\<lparr>platform := Some ''win32''\<rparr>),
      (''c'', mk_package ''c'' []), (''x'', mk_package ''x'' []), (''y'', mk_package ''y'' [])]"

text \<open>
  A store in which \<open>a\<close> requires the project itself, which is not in the lockfile,
  and then \<open>c\<close>.
\<close>

definition self_store :: PackageMap where
  "self_store = fmap_of_list
     [(''a'', mk_package ''a'' [''myproject'', ''c'']), (''c'', mk_package ''c'' [])]"

text \<open>
  A store in which \<open>a\<close> and \<open>b\<close> both require \<open>c\<close>. The project requires
  \<open>a\<close> and, optionally, \<open>zzz\<close>, which is not locked; its extra \<open>extra1\<close> requires
  \<open>b\<close>; its dev dependencies are \<open>a\<close> and \<open>b\<close>. The Tox environment asks for the
  extra and locks \<open>A\<close> and \<open>b\<close>.
\<close>

definition shared_store :: PackageMap where
  "shared_store = fmap_of_list
     [(''a'', mk_package ''a'' [''c'']), (''b'', mk_package ''b'' [''c'']),
      (''c'', mk_package ''c'' [])]"

definition shared_poetry :: poetry where
  "shared_poetry = \<lparr>package_name = ''myproject'',
     package_requires = [\<lparr>dep_name = ''a'', is_optional = False\<rparr>,
                         \<lparr>dep_name = ''zzz'', is_optional = True\<rparr>],
     package_extras = fmap_of_list [(''extra1'', [\<lparr>dep_name = ''b'', is_optional = True\<rparr>])],
     dev_dependencies = [''a'', ''b'']\<rparr>"

definition shared_venv :: venv where
  "shared_venv = \<lparr>venv_name = ''py38'', extras = [''extra1''], locked_deps = [''A'', ''b'']\<rparr>"

section \<open>Properties of the traversal\<close>

text \<open>
  The branches of the helper, one equation each, and the three ways a call can go: it
  returns at once, it raises for a missing key, or it walks the requirements.
\<close>

lemma find_unsafe:
  "nm \<in> UNSAFE_PACKAGES env \<Longrightarrow>
     find_deps_of_deps env packages allow_missing nm st = (Returned, enter nm st)"
  by (simp add: find_deps_of_deps.simps)

lemma find_missing:
  "nm \<notin> UNSAFE_PACKAGES env \<Longrightarrow> fmlookup packages nm = None \<Longrightarrow>
     find_deps_of_deps env packages allow_missing nm st =
       (if nm \<in> set allow_missing then (Returned, enter nm st)
        else (Raised (KeyError nm), enter nm st))"
  by (simp add: find_deps_of_deps.simps)

lemma find_incompatible:
  "fmlookup packages nm = Some pkg \<Longrightarrow> \<not> compatible env pkg \<Longrightarrow>
     find_deps_of_deps env packages allow_missing nm st = (Returned, enter nm st)"
  by (auto simp: find_deps_of_deps.simps compatible_def)

lemma find_expands:
  "expands env packages nm pkg \<Longrightarrow>
     find_deps_of_deps env packages allow_missing nm st =
       (case requires_loop env packages allow_missing (requires pkg) (enter nm st) of
          (Returned, st') \<Rightarrow> (Returned, st'\<lparr>transients := transients st' @ [pkg]\<rparr>)
        | (Raised err, st') \<Rightarrow> (Raised err, st'))"
  by (auto simp: find_deps_of_deps.simps compatible_def expands_def)

lemma find_cases:
  obtains (skip) "find_deps_of_deps env packages allow_missing nm st = (Returned, enter nm st)"
      "\<nexists>pkg. expands env packages nm pkg"
    | (missing) "find_deps_of_deps env packages allow_missing nm st = (Raised (KeyError nm), enter nm st)"
      "nm \<notin> UNSAFE_PACKAGES env" "fmlookup packages nm = None" "nm \<notin> set allow_missing"
    | (expand) pkg where "expands env packages nm pkg"
proof (cases "nm \<in> UNSAFE_PACKAGES env")
  case True
  then show ?thesis using skip find_unsafe by (simp add: expands_def)
next
  case False
  show ?thesis
  proof (cases "fmlookup packages nm")
    case None
    with False show ?thesis using skip missing find_missing[OF False None]
      by (cases "nm \<in> set allow_missing") (auto simp: expands_def)
  next
    case (Some pkg)
    with False show ?thesis using skip expand find_incompatible[OF Some]
      by (cases "compatible env pkg") (auto simp: expands_def)
  qed
qed

text \<open>
  The helper never removes a name from \<open>searched\<close>, and it adds the name it is called
  with.
\<close>

lemma searched_mono:
  "searched st \<subseteq> searched (snd (find_deps_of_deps env packages allow_missing nm st))"
  "searched st \<subseteq> searched (snd (requires_loop env packages allow_missing deps st))"
proof (induct env packages allow_missing nm st and env packages allow_missing deps st
       rule: find_deps_of_deps_requires_loop.induct)
  case (1 env packages allow_missing nm st)
  show ?case
    using 1
    by (auto simp: find_deps_of_deps.simps searched_enter
             split: option.splits prod.splits outcome.splits)
next
  case (2 env packages allow_missing st)
  then show ?case by simp
next
  case (3 env packages allow_missing dep deps st)
  show ?case
    using 3
    by (auto split: prod.splits outcome.splits; blast)
qed

lemma find_searched:
  "nm \<in> searched (snd (find_deps_of_deps env packages allow_missing nm st))"
proof (cases rule: find_cases [of env packages allow_missing nm st])
  case skip
  then show ?thesis by (simp add: searched_enter)
next
  case missing
  then show ?thesis by (simp add: searched_enter)
next
  case (expand pkg)
  have "nm \<in> searched (enter nm st)" by (simp add: searched_enter)
  with searched_mono(2) [of "enter nm st" env packages allow_missing "requires pkg"]
  show ?thesis
    by (auto simp: find_expands [OF expand] split: prod.splits outcome.splits)
qed

lemma expands_fun: "expands env packages nm p \<Longrightarrow> expands env packages nm q \<Longrightarrow> p = q"
  by (simp add: expands_def)

lemma calls_ok_enter: "calls_ok st \<Longrightarrow> nm \<notin> searched st \<Longrightarrow> calls_ok (enter nm st)"
  by (auto simp: calls_ok_def enter_def)

lemma calls_ok_transients [simp]: "calls_ok (st\<lparr>transients := ts\<rparr>) = calls_ok st"
  by (simp add: calls_ok_def)

text \<open>
  A call with a name that is not yet in \<open>searched\<close>, and every run of the loop, keeps
  the record of calls free of repetitions.
\<close>

lemma calls_ok_traversal:
  "calls_ok st \<Longrightarrow> nm \<notin> searched st \<Longrightarrow>
     calls_ok (snd (find_deps_of_deps env packages allow_missing nm st))"
  "calls_ok st \<Longrightarrow> calls_ok (snd (requires_loop env packages allow_missing deps st))"
proof (induct env packages allow_missing nm st and env packages allow_missing deps st
       rule: find_deps_of_deps_requires_loop.induct)
  case (1 env packages allow_missing nm st)
  show ?case
  proof (cases rule: find_cases [of env packages allow_missing nm st])
    case skip
    with 1(2,3) show ?thesis by (simp add: calls_ok_enter)
  next
    case missing
    with 1(2,3) show ?thesis by (simp add: calls_ok_enter)
  next
    case (expand pkg)
    then have "calls_ok (snd (requires_loop env packages allow_missing (requires pkg) (enter nm st)))"
      using 1(1) [of pkg] 1(2,3) by (simp add: expands_def compatible_def calls_ok_enter)
    then show ?thesis
      by (auto simp: find_expands [OF expand] split: prod.splits outcome.splits)
  qed
next
  case (2 env packages allow_missing st)
  then show ?case by simp
next
  case (3 env packages allow_missing dep deps st)
  show ?case
  proof (cases "dep_name dep \<in> searched st")
    case True
    with 3 show ?thesis by simp
  next
    case False
    obtain r st1 where r: "find_deps_of_deps env packages allow_missing (dep_name dep) st = (r, st1)"
      by (cases "find_deps_of_deps env packages allow_missing (dep_name dep) st")
    from 3(1) [OF False 3(4) False] r have c1: "calls_ok st1" by simp
    show ?thesis
    proof (cases r)
      case Returned
      with 3(2) [OF False r [symmetric] Returned c1] r False show ?thesis by simp
    next
      case (Raised err)
      with r False c1 show ?thesis by simp
    qed
  qed
qed

text \<open>
  Whatever is raised is the \<open>KeyError\<close> of a name that is no key of the store, is not
  unsafe and is not allowed to be missing.
\<close>

lemma raise_is_missing_key:
  "fst (find_deps_of_deps env packages allow_missing nm st) = Raised err \<Longrightarrow>
     \<exists>k. err = KeyError k \<and> k \<notin> UNSAFE_PACKAGES env \<and> fmlookup packages k = None
        \<and> k \<notin> set allow_missing"
  "fst (requires_loop env packages allow_missing deps st) = Raised err \<Longrightarrow>
     \<exists>k. err = KeyError k \<and> k \<notin> UNSAFE_PACKAGES env \<and> fmlookup packages k = None
        \<and> k \<notin> set allow_missing"
proof (induct env packages allow_missing nm st and env packages allow_missing deps st
       rule: find_deps_of_deps_requires_loop.induct)
  case (1 env packages allow_missing nm st)
  show ?case
  proof (cases rule: find_cases [of env packages allow_missing nm st])
    case skip
    with 1(2) show ?thesis by simp
  next
    case missing
    with 1(2) show ?thesis by auto
  next
    case (expand pkg)
    with 1(2) have "fst (requires_loop env packages allow_missing (requires pkg) (enter nm st)) = Raised err"
      by (auto simp: find_expands [OF expand] split: prod.splits outcome.splits)
    with 1(1) [of pkg] expand show ?thesis
      by (simp add: expands_def compatible_def)
  qed
next
  case (2 env packages allow_missing st)
  then show ?case by simp
next
  case (3 env packages allow_missing dep deps st)
  show ?case
  proof (cases "dep_name dep \<in> searched st")
    case True
    with 3 show ?thesis by simp
  next
    case False
    obtain r st1 where r: "find_deps_of_deps env packages allow_missing (dep_name dep) st = (r, st1)"
      by (cases "find_deps_of_deps env packages allow_missing (dep_name dep) st")
    show ?thesis
    proof (cases r)
      case Returned
      with 3(2) [OF False r [symmetric] Returned] 3(4) r False show ?thesis by simp
    next
      case (Raised e)
      with r False 3(4) have "e = err" by simp
      with 3(1) [OF False] r Raised show ?thesis by simp
    qed
  qed
qed

text \<open>
  \<open>transients\<close> only grows at its end. What is appended are the packages of names that
  were newly searched, each once, and each a package at which the helper walks on.
\<close>

lemma transients_prefix:
  "prefix (transients st) (transients (snd (find_deps_of_deps env packages allow_missing nm st)))"
  "prefix (transients st) (transients (snd (requires_loop env packages allow_missing deps st)))"
proof (induct env packages allow_missing nm st and env packages allow_missing deps st
       rule: find_deps_of_deps_requires_loop.induct)
  case (1 env packages allow_missing nm st)
  show ?case
  proof (cases rule: find_cases [of env packages allow_missing nm st])
    case skip
    then show ?thesis by (simp add: transients_enter)
  next
    case missing
    then show ?thesis by (simp add: transients_enter)
  next
    case (expand pkg)
    then have "prefix (transients st)
        (transients (snd (requires_loop env packages allow_missing (requires pkg) (enter nm st))))"
      using 1 [of pkg] by (simp add: expands_def compatible_def transients_enter)
    then show ?thesis
      by (auto simp: find_expands [OF expand] split: prod.splits outcome.splits)
  qed
next
  case (2 env packages allow_missing st)
  then show ?case by simp
next
  case (3 env packages allow_missing dep deps st)
  show ?case
  proof (cases "dep_name dep \<in> searched st")
    case True
    with 3 show ?thesis by simp
  next
    case False
    obtain r st1 where r: "find_deps_of_deps env packages allow_missing (dep_name dep) st = (r, st1)"
      by (cases "find_deps_of_deps env packages allow_missing (dep_name dep) st")
    from 3(1) [OF False] r have p1: "prefix (transients st) (transients st1)" by simp
    show ?thesis
    proof (cases r)
      case Returned
      from 3(2) [OF False r [symmetric] Returned] p1
      have "prefix (transients st) (transients (snd (requires_loop env packages allow_missing deps st1)))"
        by (rule prefix_order.trans [rotated])
      with r False Returned show ?thesis by simp
    next
      case (Raised err)
      with r False p1 show ?thesis by simp
    qed
  qed
qed

lemma new_transients:
  "nm \<notin> searched st \<Longrightarrow>
     \<exists>ms. transients (snd (find_deps_of_deps env packages allow_missing nm st)) =
            transients st @ map (\<lambda>m. the (fmlookup packages m)) ms
        \<and> distinct ms
        \<and> set ms \<subseteq> searched (snd (find_deps_of_deps env packages allow_missing nm st)) - searched st
        \<and> (\<forall>m \<in> set ms. \<exists>p. expands env packages m p)"
  "\<exists>ms. transients (snd (requires_loop env packages allow_missing deps st)) =
            transients st @ map (\<lambda>m. the (fmlookup packages m)) ms
        \<and> distinct ms
        \<and> set ms \<subseteq> searched (snd (requires_loop env packages allow_missing deps st)) - searched st
        \<and> (\<forall>m \<in> set ms. \<exists>p. expands env packages m p)"
proof (induct env packages allow_missing nm st and env packages allow_missing deps st
       rule: find_deps_of_deps_requires_loop.induct)
  case (1 env packages allow_missing nm st)
  let ?f = "\<lambda>m. the (fmlookup packages m)"
  show ?case
  proof (cases rule: find_cases [of env packages allow_missing nm st])
    case skip
    then show ?thesis by (auto simp: transients_enter intro: exI [of _ "[]"])
  next
    case missing
    then show ?thesis by (auto simp: transients_enter intro: exI [of _ "[]"])
  next
    case (expand pkg)
    obtain r st2 where r: "requires_loop env packages allow_missing (requires pkg) (enter nm st) = (r, st2)"
      by (cases "requires_loop env packages allow_missing (requires pkg) (enter nm st)")
    from 1(1) [of pkg] expand r obtain ms where ms:
      "transients st2 = transients st @ map ?f ms" "distinct ms"
      "set ms \<subseteq> searched st2 - insert nm (searched st)"
      "\<forall>m \<in> set ms. \<exists>p. expands env packages m p"
      by (auto simp: expands_def compatible_def transients_enter searched_enter)
    from searched_mono(2) [of "enter nm st" env packages allow_missing "requires pkg"] r
    have nm2: "nm \<in> searched st2" by (auto simp: searched_enter)
    show ?thesis
    proof (cases r)
      case Returned
      from expand have f: "?f nm = pkg" by (simp add: expands_def)
      have "transients st2 @ [pkg] = transients st @ map ?f (ms @ [nm])"
        using ms(1) f by simp
      moreover have "distinct (ms @ [nm])" using ms(2,3) by auto
      moreover have "set (ms @ [nm]) \<subseteq> searched st2 - searched st"
        using ms(3) nm2 1(2) by auto
      moreover have "\<forall>m \<in> set (ms @ [nm]). \<exists>p. expands env packages m p"
        using ms(4) expand by auto
      moreover have res: "snd (find_deps_of_deps env packages allow_missing nm st) =
          st2\<lparr>transients := transients st2 @ [pkg]\<rparr>"
        using r Returned by (simp add: find_expands [OF expand])
      ultimately show ?thesis
        unfolding res by (intro exI [of _ "ms @ [nm]"]) simp
    next
      case (Raised err)
      have "set ms \<subseteq> searched st2 - searched st" using ms(3) by auto
      moreover have res: "snd (find_deps_of_deps env packages allow_missing nm st) = st2"
        using r Raised by (simp add: find_expands [OF expand])
      ultimately show ?thesis
        unfolding res using ms by (intro exI [of _ ms]) simp
    qed
  qed
next
  case (2 env packages allow_missing st)
  then show ?case by simp
next
  case (3 env packages allow_missing dep deps st)
  let ?f = "\<lambda>m. the (fmlookup packages m)"
  show ?case
  proof (cases "dep_name dep \<in> searched st")
    case True
    with 3 show ?thesis by simp
  next
    case False
    obtain r st1 where r: "find_deps_of_deps env packages allow_missing (dep_name dep) st = (r, st1)"
      by (cases "find_deps_of_deps env packages allow_missing (dep_name dep) st")
    from 3(1) [OF False False] r obtain ms1 where ms1:
      "transients st1 = transients st @ map ?f ms1" "distinct ms1"
      "set ms1 \<subseteq> searched st1 - searched st"
      "\<forall>m \<in> set ms1. \<exists>p. expands env packages m p"
      by auto
    show ?thesis
    proof (cases r)
      case Returned
      let ?st' = "snd (requires_loop env packages allow_missing deps st1)"
      from 3(2) [OF False r [symmetric] Returned] obtain ms2 where ms2:
        "transients ?st' = transients st1 @ map ?f ms2" "distinct ms2"
        "set ms2 \<subseteq> searched ?st' - searched st1"
        "\<forall>m \<in> set ms2. \<exists>p. expands env packages m p"
        by auto
      have m1: "searched st1 \<subseteq> searched ?st'" by (rule searched_mono(2))
      from searched_mono(1) [of st env packages allow_missing "dep_name dep"] r
      have m0: "searched st \<subseteq> searched st1" by simp
      have "transients ?st' = transients st @ map ?f (ms1 @ ms2)"
        using ms1(1) ms2(1) by simp
      moreover have "distinct (ms1 @ ms2)" using ms1(2,3) ms2(2,3) by auto
      moreover have "set (ms1 @ ms2) \<subseteq> searched ?st' - searched st"
        using ms1(3) ms2(3) m1 m0 by auto
      moreover have "\<forall>m \<in> set (ms1 @ ms2). \<exists>p. expands env packages m p"
        using ms1(4) ms2(4) by auto
      moreover have res: "snd (requires_loop env packages allow_missing (dep # deps) st) = ?st'"
        using r Returned False by simp
      ultimately show ?thesis
        unfolding res by (intro exI [of _ "ms1 @ ms2"]) simp
    next
      case (Raised err)
      have res: "snd (requires_loop env packages allow_missing (dep # deps) st) = st1"
        using r Raised False by simp
      show ?thesis
        unfolding res using ms1 by (intro exI [of _ ms1]) simp
    qed
  qed
qed

lemma requires_edgeI:
  "fmlookup packages n = Some pkg \<Longrightarrow> d \<in> set (requires pkg) \<Longrightarrow>
     (n, dep_name d) \<in> requires_edge packages"
  by (auto simp: requires_edge_def)

text \<open>
  When a call returns, every name it newly searched and walked has its package in
  \<open>transients\<close> and all its requirements in \<open>searched\<close>.
\<close>

lemma visited_closed:
  "fst (find_deps_of_deps env packages allow_missing nm st) = Returned \<Longrightarrow>
     \<forall>m \<in> searched (snd (find_deps_of_deps env packages allow_missing nm st)) - searched st.
       \<forall>p. expands env packages m p \<longrightarrow>
         p \<in> set (transients (snd (find_deps_of_deps env packages allow_missing nm st))) \<and>
         dep_name ` set (requires p) \<subseteq>
           searched (snd (find_deps_of_deps env packages allow_missing nm st))"
  "fst (requires_loop env packages allow_missing deps st) = Returned \<Longrightarrow>
     dep_name ` set deps \<subseteq> searched (snd (requires_loop env packages allow_missing deps st)) \<and>
     (\<forall>m \<in> searched (snd (requires_loop env packages allow_missing deps st)) - searched st.
       \<forall>p. expands env packages m p \<longrightarrow>
         p \<in> set (transients (snd (requires_loop env packages allow_missing deps st))) \<and>
         dep_name ` set (requires p) \<subseteq>
           searched (snd (requires_loop env packages allow_missing deps st)))"
proof (induct env packages allow_missing nm st and env packages allow_missing deps st
       rule: find_deps_of_deps_requires_loop.induct)
  case (1 env packages allow_missing nm st)
  show ?case
  proof (cases rule: find_cases [of env packages allow_missing nm st])
    case skip
    then show ?thesis by (auto simp: searched_enter)
  next
    case missing
    with 1(2) show ?thesis by simp
  next
    case (expand pkg)
    obtain r st2 where r: "requires_loop env packages allow_missing (requires pkg) (enter nm st) = (r, st2)"
      by (cases "requires_loop env packages allow_missing (requires pkg) (enter nm st)")
    with 1(2) have ret: "r = Returned"
      by (auto simp: find_expands [OF expand] split: outcome.splits)
    have res: "snd (find_deps_of_deps env packages allow_missing nm st) =
          st2\<lparr>transients := transients st2 @ [pkg]\<rparr>"
      using r ret by (simp add: find_expands [OF expand])
    from 1(1) [of pkg] expand r ret have ih:
      "dep_name ` set (requires pkg) \<subseteq> searched st2"
      "\<forall>m \<in> searched st2 - insert nm (searched st).
         \<forall>p. expands env packages m p \<longrightarrow>
           p \<in> set (transients st2) \<and> dep_name ` set (requires p) \<subseteq> searched st2"
      by (simp_all add: expands_def compatible_def searched_enter)
    show ?thesis
      unfolding res
    proof (intro ballI allI impI)
      fix m p
      assume m: "m \<in> searched (st2\<lparr>transients := transients st2 @ [pkg]\<rparr>) - searched st"
        and p: "expands env packages m p"
      show "p \<in> set (transients (st2\<lparr>transients := transients st2 @ [pkg]\<rparr>)) \<and>
         dep_name ` set (requires p) \<subseteq> searched (st2\<lparr>transients := transients st2 @ [pkg]\<rparr>)"
      proof (cases "m = nm")
        case True
        with p expand have "p = pkg" by (auto dest: expands_fun)
        with ih(1) show ?thesis by simp
      next
        case False
        with m ih(2) p show ?thesis by auto
      qed
    qed
  qed
next
  case (2 env packages allow_missing st)
  then show ?case by simp
next
  case (3 env packages allow_missing dep deps st)
  show ?case
  proof (cases "dep_name dep \<in> searched st")
    case True
    have "searched st \<subseteq> searched (snd (requires_loop env packages allow_missing deps st))"
      by (rule searched_mono(2))
    with True 3(3) [OF _] 3(4) show ?thesis by auto
  next
    case False
    obtain r st1 where r: "find_deps_of_deps env packages allow_missing (dep_name dep) st = (r, st1)"
      by (cases "find_deps_of_deps env packages allow_missing (dep_name dep) st")
    with 3(4) False have ret: "r = Returned"
      by (auto split: outcome.splits)
    let ?st' = "snd (requires_loop env packages allow_missing deps st1)"
    have res: "requires_loop env packages allow_missing (dep # deps) st =
        requires_loop env packages allow_missing deps st1"
      using r ret False by simp
    from 3(1) [OF False] r ret have ih1:
      "\<forall>m \<in> searched st1 - searched st.
         \<forall>p. expands env packages m p \<longrightarrow>
           p \<in> set (transients st1) \<and> dep_name ` set (requires p) \<subseteq> searched st1"
      by simp
    from 3(2) [OF False r [symmetric] ret] 3(4) res have ih2:
      "dep_name ` set deps \<subseteq> searched ?st'"
      "\<forall>m \<in> searched ?st' - searched st1.
         \<forall>p. expands env packages m p \<longrightarrow>
           p \<in> set (transients ?st') \<and> dep_name ` set (requires p) \<subseteq> searched ?st'"
      by simp_all
    have m1: "searched st1 \<subseteq> searched ?st'" by (rule searched_mono(2))
    have t1: "set (transients st1) \<subseteq> set (transients ?st')"
      using transients_prefix(2) [of st1 env packages allow_missing deps]
      by (rule set_mono_prefix)
    from find_searched [of "dep_name dep" env packages allow_missing st] r
    have d1: "dep_name dep \<in> searched st1" by simp
    show ?thesis
      unfolding res
    proof (intro conjI ballI allI impI)
      show "dep_name ` set (dep # deps) \<subseteq> searched ?st'"
        using ih2(1) d1 m1 by auto
    next
      fix m p
      assume m: "m \<in> searched ?st' - searched st" and p: "expands env packages m p"
      have "p \<in> set (transients ?st') \<and> dep_name ` set (requires p) \<subseteq> searched ?st'"
      proof (cases "m \<in> searched st1")
        case True
        with m have "m \<in> searched st1 - searched st" by simp
        with ih1 p have "p \<in> set (transients st1) \<and> dep_name ` set (requires p) \<subseteq> searched st1"
          by blast
        with t1 m1 show ?thesis by blast
      next
        case False
        with m have "m \<in> searched ?st' - searched st1" by simp
        with ih2(2) p show ?thesis by blast
      qed
      then show "p \<in> set (transients ?st')"
        and "dep_name ` set (requires p) \<subseteq> searched ?st'"
        by simp_all
    qed
  qed
qed

text \<open>
  A call returns when every name that can be reached from its argument is unsafe, a key
  of the store or allowed to be missing.
\<close>

lemma returns_when_reachable_resolvable:
  "\<forall>m. (nm, m) \<in> (requires_edge packages)\<^sup>* \<longrightarrow> resolvable env packages allow_missing m \<Longrightarrow>
     fst (find_deps_of_deps env packages allow_missing nm st) = Returned"
  "\<forall>d \<in> set deps. \<forall>m. (dep_name d, m) \<in> (requires_edge packages)\<^sup>* \<longrightarrow>
        resolvable env packages allow_missing m \<Longrightarrow>
     fst (requires_loop env packages allow_missing deps st) = Returned"
proof (induct env packages allow_missing nm st and env packages allow_missing deps st
       rule: find_deps_of_deps_requires_loop.induct)
  case (1 env packages allow_missing nm st)
  show ?case
  proof (cases rule: find_cases [of env packages allow_missing nm st])
    case skip
    then show ?thesis by simp
  next
    case missing
    from 1(2) have "resolvable env packages allow_missing nm" by blast
    with missing show ?thesis by (auto simp: resolvable_def fmlookup_dom'_iff)
  next
    case (expand pkg)
    have "\<forall>d \<in> set (requires pkg). \<forall>m. (dep_name d, m) \<in> (requires_edge packages)\<^sup>* \<longrightarrow>
        resolvable env packages allow_missing m"
    proof (intro ballI allI impI)
      fix d m
      assume d: "d \<in> set (requires pkg)" and m: "(dep_name d, m) \<in> (requires_edge packages)\<^sup>*"
      from expand d have "(nm, dep_name d) \<in> requires_edge packages"
        by (auto simp: expands_def intro: requires_edgeI)
      with m have "(nm, m) \<in> (requires_edge packages)\<^sup>*" by (meson converse_rtrancl_into_rtrancl)
      with 1(2) show "resolvable env packages allow_missing m" by blast
    qed
    with 1(1) [of pkg] expand
    have "fst (requires_loop env packages allow_missing (requires pkg) (enter nm st)) = Returned"
      by (simp add: expands_def compatible_def)
    then show ?thesis
      by (auto simp: find_expands [OF expand] split: prod.splits outcome.splits)
  qed
next
  case (2 env packages allow_missing st)
  then show ?case by simp
next
  case (3 env packages allow_missing dep deps st)
  show ?case
  proof (cases "dep_name dep \<in> searched st")
    case True
    with 3 show ?thesis by simp
  next
    case False
    obtain r st1 where r: "find_deps_of_deps env packages allow_missing (dep_name dep) st = (r, st1)"
      by (cases "find_deps_of_deps env packages allow_missing (dep_name dep) st")
    from 3(1) [OF False] 3(4) r have ret: "r = Returned" by simp
    with 3(2) [OF False r [symmetric] ret] 3(4) r False show ?thesis by simp
  qed
qed

lemma resolvable_reachable:
  assumes "requirements_resolvable env packages allow_missing"
    and "resolvable env packages allow_missing nm"
    and "(nm, m) \<in> (requires_edge packages)\<^sup>*"
  shows "resolvable env packages allow_missing m"
  using assms(3,2)
proof (induct rule: rtrancl_induct)
  case base
  then show ?case .
next
  case (step y z)
  from step(2) assms(1) show ?case
    by (auto simp: requires_edge_def requirements_resolvable_def)
qed

lemma returns_when_resolvable:
  "requirements_resolvable env packages allow_missing \<Longrightarrow>
   resolvable env packages allow_missing nm \<Longrightarrow>
     fst (find_deps_of_deps env packages allow_missing nm st) = Returned"
  by (rule returns_when_reachable_resolvable(1)) (blast intro: resolvable_reachable)

text \<open>
  Post-order. The names that are searched but whose package is not yet appended are the
  ones whose call is still running; each of them reaches the name of the current call.
  Without a cycle, no requirement of the current package is among them, so all its
  requirements are already in the list when the package is appended.
\<close>

lemma deps_first_snoc:
  assumes "deps_first packages ts"
    and "\<forall>d \<in> set (requires p). \<exists>q \<in> set ts. fmlookup packages (dep_name d) = Some q"
  shows "deps_first packages (ts @ [p])"
  unfolding deps_first_def
proof (intro allI impI ballI)
  fix i d
  assume i: "i < length (ts @ [p])" and d: "d \<in> set (requires ((ts @ [p]) ! i))"
  show "\<exists>j<i. fmlookup packages (dep_name d) = Some ((ts @ [p]) ! j)"
  proof (cases "i < length ts")
    case True
    with d assms(1) obtain j where "j < i" "fmlookup packages (dep_name d) = Some (ts ! j)"
      by (auto simp: deps_first_def nth_append)
    with True show ?thesis by (auto simp: nth_append intro!: exI [of _ j])
  next
    case False
    with i have ii: "i = length ts" by simp
    with d assms(2) obtain q where "q \<in> set ts" "fmlookup packages (dep_name d) = Some q"
      by auto
    then obtain j where "j < length ts" "ts ! j = q" by (auto simp: in_set_conv_nth)
    with ii \<open>fmlookup packages (dep_name d) = Some q\<close> show ?thesis
      by (auto simp: nth_append intro!: exI [of _ j])
  qed
qed

lemma acyclic_below_step:
  "acyclic_below env packages n \<Longrightarrow> (n, d) \<in> requires_edge packages \<Longrightarrow>
     acyclic_below env packages d"
  unfolding acyclic_below_def by (meson converse_rtrancl_into_rtrancl)

lemma postorder:
  "find_deps_of_deps env packages allow_missing nm st = (Returned, st') \<Longrightarrow>
   acyclic_below env packages nm \<Longrightarrow>
   \<forall>g \<in> searched st - finished packages st. (g, nm) \<in> (requires_edge packages)\<^sup>+ \<Longrightarrow>
   deps_first packages (transients st) \<Longrightarrow>
     searched st' - finished packages st' \<subseteq> searched st - finished packages st \<and>
     deps_first packages (transients st')"
  "requires_loop env packages allow_missing deps st = (Returned, st') \<Longrightarrow>
   \<forall>d \<in> set deps. acyclic_below env packages (dep_name d) \<Longrightarrow>
   \<forall>g \<in> searched st - finished packages st. \<forall>d \<in> set deps.
      (g, dep_name d) \<in> (requires_edge packages)\<^sup>+ \<Longrightarrow>
   deps_first packages (transients st) \<Longrightarrow>
     searched st' - finished packages st' \<subseteq> searched st - finished packages st \<and>
     deps_first packages (transients st')"
proof (induct env packages allow_missing nm st and env packages allow_missing deps st
       arbitrary: st' and st'
       rule: find_deps_of_deps_requires_loop.induct)
  case (1 env packages allow_missing nm st)
  let ?E = "requires_edge packages"
  from 1(3) obtain pkg where expand: "expands env packages nm pkg"
    by (auto simp: acyclic_below_def)
  obtain r st2 where r: "requires_loop env packages allow_missing (requires pkg) (enter nm st) = (r, st2)"
    by (cases "requires_loop env packages allow_missing (requires pkg) (enter nm st)")
  with 1(2) have ret: "r = Returned"
    by (auto simp: find_expands [OF expand] split: outcome.splits)
  have st': "st' = st2\<lparr>transients := transients st2 @ [pkg]\<rparr>"
    using r ret 1(2) by (simp add: find_expands [OF expand])
  have edge: "(nm, dep_name d) \<in> ?E" if "d \<in> set (requires pkg)" for d
    using that expand by (auto simp: expands_def intro: requires_edgeI)
  have a: "\<forall>d \<in> set (requires pkg). acyclic_below env packages (dep_name d)"
    using 1(3) edge by (blast intro: acyclic_below_step)
  have fin_enter: "finished packages (enter nm st) = finished packages st"
    by (simp add: finished_def transients_enter)
  have g: "\<forall>g \<in> searched (enter nm st) - finished packages (enter nm st).
      \<forall>d \<in> set (requires pkg). (g, dep_name d) \<in> ?E\<^sup>+"
  proof (intro ballI)
    fix g d
    assume g: "g \<in> searched (enter nm st) - finished packages (enter nm st)"
      and d: "d \<in> set (requires pkg)"
    show "(g, dep_name d) \<in> ?E\<^sup>+"
    proof (cases "g = nm")
      case True
      with edge [OF d] show ?thesis by auto
    next
      case False
      with g have "g \<in> searched st - finished packages st"
        by (simp add: fin_enter searched_enter)
      with 1(4) have "(g, nm) \<in> ?E\<^sup>+" by blast
      with edge [OF d] show ?thesis by (meson trancl_into_trancl)
    qed
  qed
  have df: "deps_first packages (transients (enter nm st))"
    using 1(5) by (simp add: transients_enter)
  from expand have ex: "nm \<notin> UNSAFE_PACKAGES env" "fmlookup packages nm = Some pkg"
    "\<not> \<not> python_constraint pkg (PLATFORM_VERSION env)"
    "\<not> (platform pkg \<noteq> None \<and> platform pkg \<noteq> Some (sys_platform env))"
    by (auto simp: expands_def compatible_def)
  from 1(1) [OF ex r [unfolded ret] a g df]
  have ih: "searched st2 - finished packages st2 \<subseteq>
      searched (enter nm st) - finished packages (enter nm st)"
    "deps_first packages (transients st2)"
    by simp_all
  from visited_closed(2) [of env packages allow_missing "requires pkg" "enter nm st"] r ret
  have cl: "dep_name ` set (requires pkg) \<subseteq> searched st2" by simp
  have nocyc: "(nm, nm) \<notin> ?E\<^sup>+"
    using 1(3) by (auto simp: acyclic_below_def)
  have "\<forall>d \<in> set (requires pkg). \<exists>q \<in> set (transients st2).
      fmlookup packages (dep_name d) = Some q"
  proof
    fix d
    assume d: "d \<in> set (requires pkg)"
    have "dep_name d \<notin> searched st2 - finished packages st2"
    proof
      assume "dep_name d \<in> searched st2 - finished packages st2"
      with ih(1) have "dep_name d \<in> searched (enter nm st) - finished packages st"
        by (auto simp: fin_enter)
      then have "dep_name d = nm \<or> dep_name d \<in> searched st - finished packages st"
        by (auto simp: searched_enter)
      then show False
      proof
        assume "dep_name d = nm"
        with edge [OF d] nocyc show False by auto
      next
        assume "dep_name d \<in> searched st - finished packages st"
        with 1(4) have "(dep_name d, nm) \<in> ?E\<^sup>+" by blast
        with edge [OF d] have "(nm, nm) \<in> ?E\<^sup>+" by (meson trancl_into_trancl2)
        with nocyc show False by simp
      qed
    qed
    with cl d show "\<exists>q \<in> set (transients st2). fmlookup packages (dep_name d) = Some q"
      by (auto simp: finished_def)
  qed
  with ih(2) have "deps_first packages (transients st2 @ [pkg])"
    by (rule deps_first_snoc)
  moreover have "searched st' - finished packages st' \<subseteq> searched st - finished packages st"
  proof
    fix m
    assume m: "m \<in> searched st' - finished packages st'"
    have sub: "finished packages st2 \<subseteq> finished packages st'"
      by (auto simp: finished_def st')
    have "nm \<in> finished packages st'"
      using ex(2) by (auto simp: finished_def st')
    with m have "m \<noteq> nm" by auto
    moreover from m sub have "m \<in> searched st2 - finished packages st2"
      by (auto simp: st')
    ultimately show "m \<in> searched st - finished packages st"
      using ih(1) by (auto simp: fin_enter searched_enter)
  qed
  ultimately show ?case by (simp add: st')
next
  case (2 env packages allow_missing st)
  then show ?case by simp
next
  case (3 env packages allow_missing dep deps st)
  show ?case
  proof (cases "dep_name dep \<in> searched st")
    case True
    with 3(4) have "requires_loop env packages allow_missing deps st = (Returned, st')"
      by simp
    from 3(3) [OF _ this] True 3(5,6,7) show ?thesis by simp
  next
    case False
    obtain r st1 where r: "find_deps_of_deps env packages allow_missing (dep_name dep) st = (r, st1)"
      by (cases "find_deps_of_deps env packages allow_missing (dep_name dep) st")
    with 3(4) False have ret: "r = Returned"
      by (auto split: outcome.splits)
    have rest: "requires_loop env packages allow_missing deps st1 = (Returned, st')"
      using r ret False 3(4) by simp
    from 3(1) [OF False r [unfolded ret]] 3(5,6,7)
    have ih1: "searched st1 - finished packages st1 \<subseteq> searched st - finished packages st"
      "deps_first packages (transients st1)"
      by simp_all
    have "\<forall>g\<in>searched st1 - finished packages st1. \<forall>d\<in>set deps.
        (g, dep_name d) \<in> (requires_edge packages)\<^sup>+"
      using ih1(1) 3(6) by auto
    with 3(2) [OF False r [symmetric] ret rest] 3(5) ih1
    show ?thesis by auto
  qed
qed

text \<open>
  From the traversal to \<^verbatim>\<open>identify_transients\<close>.
\<close>

lemma keyed_by_nameD: "keyed_by_name packages \<Longrightarrow> fmlookup packages k = Some pkg \<Longrightarrow> name pkg = k"
  by (auto simp: keyed_by_name_def)

lemma searched_initial [simp]: "searched initial_state = {}"
  and transients_initial [simp]: "transients initial_state = []"
  and calls_initial [simp]: "calls initial_state = []"
  by (simp_all add: initial_state_def)

lemma identify_transients_returned:
  "fmlookup packages dependency_name = Some root \<Longrightarrow>
   find_deps_of_deps env packages allow_missing (name root) initial_state = (Returned, st) \<Longrightarrow>
     identify_transients env packages dependency_name allow_missing = Inr (transients st)"
  by (simp add: identify_transients_def)

lemma identify_transients_raised:
  assumes "fmlookup packages dependency_name = Some root"
    and "find_deps_of_deps env packages allow_missing (name root) initial_state = (Raised err, st)"
  shows "identify_transients env packages dependency_name allow_missing =
     on_key_error env dependency_name"
proof -
  from raise_is_missing_key(1) [of env packages allow_missing "name root" initial_state err] assms(2)
  obtain k where "err = KeyError k" by auto
  with assms show ?thesis by (simp add: identify_transients_def)
qed

lemma identify_transients_Inr_cases:
  assumes "identify_transients env packages dependency_name allow_missing = Inr ts"
  obtains (empty) "ts = []"
    | (walked) root st where "fmlookup packages dependency_name = Some root"
        "find_deps_of_deps env packages allow_missing (name root) initial_state = (Returned, st)"
        "ts = transients st"
proof (cases "fmlookup packages dependency_name")
  case None
  with assms have "ts = []"
    by (auto simp: identify_transients_def on_key_error_def split: if_splits)
  then show ?thesis by (rule empty)
next
  case (Some root)
  obtain r st where r: "find_deps_of_deps env packages allow_missing (name root) initial_state = (r, st)"
    by (cases "find_deps_of_deps env packages allow_missing (name root) initial_state")
  show ?thesis
  proof (cases r)
    case Returned
    with Some r assms have "ts = transients st"
      by (simp add: identify_transients_def)
    with Some r Returned show ?thesis by (auto intro: walked)
  next
    case (Raised err)
    with identify_transients_raised [OF Some] r assms have "ts = []"
      by (auto simp: on_key_error_def split: if_splits)
    then show ?thesis by (rule empty)
  qed
qed

lemma reachable_included:
  assumes "find_deps_of_deps env packages allow_missing nm initial_state = (Returned, st)"
    and "(nm, m) \<in> (walk_edge env packages)\<^sup>*"
    and "expands env packages m p"
  shows "p \<in> set (transients st)"
proof -
  from visited_closed(1) [of env packages allow_missing nm initial_state] assms(1)
  have cl: "\<forall>m \<in> searched st. \<forall>p. expands env packages m p \<longrightarrow>
      p \<in> set (transients st) \<and> dep_name ` set (requires p) \<subseteq> searched st"
    by simp
  from find_searched [of nm env packages allow_missing initial_state] assms(1)
  have "nm \<in> searched st" by simp
  with assms(2) have "m \<in> searched st"
  proof (induct rule: rtrancl_induct)
    case base
    then show ?case .
  next
    case (step y z)
    from step(2) obtain pkg where "expands env packages y pkg" "z \<in> dep_name ` set (requires pkg)"
      by (auto simp: walk_edge_def)
    with cl step(3,4) show ?case by blast
  qed
  with cl assms(3) show ?thesis by blast
qed

lemma transients_expand:
  assumes "find_deps_of_deps env packages allow_missing nm initial_state = (r, st)"
  shows "\<forall>p \<in> set (transients st). \<exists>m. expands env packages m p"
    and "keyed_by_name packages \<Longrightarrow> distinct (transients st)"
proof -
  from new_transients(1) [of nm initial_state env packages allow_missing] assms
  obtain ms where ms: "transients st = map (\<lambda>m. the (fmlookup packages m)) ms" "distinct ms"
    "\<forall>m \<in> set ms. \<exists>p. expands env packages m p"
    by auto
  show "\<forall>p \<in> set (transients st). \<exists>m. expands env packages m p"
  proof
    fix p assume "p \<in> set (transients st)"
    with ms(1) obtain m where m: "m \<in> set ms" "p = the (fmlookup packages m)" by auto
    with ms(3) obtain q where "expands env packages m q" by blast
    with m show "\<exists>m. expands env packages m p" by (auto simp: expands_def)
  qed
  show "distinct (transients st)" if wf: "keyed_by_name packages"
  proof -
    have "name (the (fmlookup packages m)) = m" if "m \<in> set ms" for m
    proof -
      from ms(3) that obtain q where "fmlookup packages m = Some q" by (auto simp: expands_def)
      with wf show ?thesis by (auto dest: keyed_by_nameD)
    qed
    then have "map name (transients st) = ms"
      unfolding ms(1) by (simp add: map_idI)
    with ms(2) have "distinct (map name (transients st))" by simp
    then show ?thesis by (rule distinct_map [THEN iffD1, THEN conjunct1])
  qed
qed

text \<open>
  Every name the traversal searches can be reached from the name it started with.
\<close>

lemma searched_reachable:
  "searched (snd (find_deps_of_deps env packages allow_missing nm st)) - searched st \<subseteq>
     {m. (nm, m) \<in> (requires_edge packages)\<^sup>*}"
  "searched (snd (requires_loop env packages allow_missing deps st)) - searched st \<subseteq>
     {m. \<exists>d \<in> set deps. (dep_name d, m) \<in> (requires_edge packages)\<^sup>*}"
proof (induct env packages allow_missing nm st and env packages allow_missing deps st
       rule: find_deps_of_deps_requires_loop.induct)
  case (1 env packages allow_missing nm st)
  show ?case
  proof (cases rule: find_cases [of env packages allow_missing nm st])
    case skip
    then show ?thesis by (auto simp: searched_enter)
  next
    case missing
    then show ?thesis by (auto simp: searched_enter)
  next
    case (expand pkg)
    let ?st2 = "snd (requires_loop env packages allow_missing (requires pkg) (enter nm st))"
    have res: "searched (snd (find_deps_of_deps env packages allow_missing nm st)) = searched ?st2"
      by (auto simp: find_expands [OF expand] split: prod.splits outcome.splits)
    from 1 [of pkg] expand
    have ih: "searched ?st2 - insert nm (searched st) \<subseteq>
        {m. \<exists>d \<in> set (requires pkg). (dep_name d, m) \<in> (requires_edge packages)\<^sup>*}"
      by (simp add: expands_def compatible_def searched_enter)
    show ?thesis
      unfolding res
    proof
      fix m
      assume m: "m \<in> searched ?st2 - searched st"
      show "m \<in> {m. (nm, m) \<in> (requires_edge packages)\<^sup>*}"
      proof (cases "m = nm")
        case True
        then show ?thesis by simp
      next
        case False
        with m ih obtain d where d: "d \<in> set (requires pkg)"
          "(dep_name d, m) \<in> (requires_edge packages)\<^sup>*"
          by blast
        from expand d(1) have "(nm, dep_name d) \<in> requires_edge packages"
          by (auto simp: expands_def intro: requires_edgeI)
        with d(2) show ?thesis by (simp add: converse_rtrancl_into_rtrancl)
      qed
    qed
  qed
next
  case (2 env packages allow_missing st)
  then show ?case by simp
next
  case (3 env packages allow_missing dep deps st)
  show ?case
  proof (cases "dep_name dep \<in> searched st")
    case True
    with 3(3) show ?thesis by auto
  next
    case False
    obtain r st1 where r: "find_deps_of_deps env packages allow_missing (dep_name dep) st = (r, st1)"
      by (cases "find_deps_of_deps env packages allow_missing (dep_name dep) st")
    from 3(1) [OF False] r
    have ih1: "searched st1 - searched st \<subseteq>
        {m. (dep_name dep, m) \<in> (requires_edge packages)\<^sup>*}"
      by simp
    show ?thesis
    proof (cases r)
      case Returned
      let ?st' = "snd (requires_loop env packages allow_missing deps st1)"
      have res: "snd (requires_loop env packages allow_missing (dep # deps) st) = ?st'"
        using r Returned False by simp
      from 3(2) [OF False r [symmetric] Returned]
      have ih2: "searched ?st' - searched st1 \<subseteq>
          {m. \<exists>d \<in> set deps. (dep_name d, m) \<in> (requires_edge packages)\<^sup>*}" .
      show ?thesis
        unfolding res using ih1 ih2 by auto
    next
      case (Raised err)
      have res: "snd (requires_loop env packages allow_missing (dep # deps) st) = st1"
        using r Raised False by simp
      show ?thesis
        unfolding res using ih1 by auto
    qed
  qed
qed

lemma transients_reachable:
  assumes "find_deps_of_deps env packages allow_missing nm initial_state = (r, st)"
    and "p \<in> set (transients st)"
  shows "\<exists>m. (nm, m) \<in> (requires_edge packages)\<^sup>* \<and> fmlookup packages m = Some p"
proof -
  from new_transients(1) [of nm initial_state env packages allow_missing] assms(1)
  obtain ms where ms: "transients st = map (\<lambda>m. the (fmlookup packages m)) ms"
    "set ms \<subseteq> searched st"
    "\<forall>m \<in> set ms. \<exists>p. expands env packages m p"
    by auto
  from assms(2) ms(1) obtain m where m: "m \<in> set ms" "p = the (fmlookup packages m)" by auto
  with ms(3) have "fmlookup packages m = Some p" by (auto simp: expands_def)
  moreover from searched_reachable(1) [of env packages allow_missing nm initial_state] assms(1) m(1) ms(2)
  have "(nm, m) \<in> (requires_edge packages)\<^sup>*" by auto
  ultimately show ?thesis by blast
qed

section \<open>A root that is not in the lockfile\<close>

lemma identify_transients_root_missing:
  "fmlookup packages dependency_name = None \<Longrightarrow>
     identify_transients env packages dependency_name allow_missing =
       on_key_error env dependency_name"
  by (simp add: identify_transients_def)

text \<open>
  Claim C3. A root name that is no key of the store and is not an unsafe package is
  refused with \<open>LockedDepVersionConflictError\<close> when one of the version delimiters
  occurs in it, and with \<open>LockedDepNotFoundError\<close> when none does; whatever
  \<open>allow_missing\<close> holds.
\<close>

theorem missing_root_classified:
  assumes "fmlookup packages dependency_name = None"
    and "dependency_name \<notin> UNSAFE_PACKAGES env"
  shows "identify_transients env packages dependency_name allow_missing =
     (if list_ex (\<lambda>delimiter. sublist delimiter dependency_name) (PEP508_VERSION_DELIMITERS env)
      then Inl (LockedDepVersionConflictError dependency_name)
      else Inl (LockedDepNotFoundError dependency_name))"
  using assms by (simp add: identify_transients_root_missing on_key_error_def)

theorem missing_root_classified_witness:
  "fmlookup chain_store ''foo>=1.0'' = None \<and> ''foo>=1.0'' \<notin> UNSAFE_PACKAGES example_env
   \<and> identify_transients example_env chain_store ''foo>=1.0'' [] =
       Inl (LockedDepVersionConflictError ''foo>=1.0'')
   \<and> fmlookup chain_store ''foo'' = None \<and> ''foo'' \<notin> UNSAFE_PACKAGES example_env
   \<and> identify_transients example_env chain_store ''foo'' [] =
       Inl (LockedDepNotFoundError ''foo'')"
proof -
  have h1: "fmlookup chain_store ''foo>=1.0'' = None"
    by (simp add: chain_store_def fmlookup_of_list)
  have h2: "''foo>=1.0'' \<notin> UNSAFE_PACKAGES example_env"
    by (simp add: example_env_def)
  have h3: "fmlookup chain_store ''foo'' = None"
    by (simp add: chain_store_def fmlookup_of_list)
  have h4: "''foo'' \<notin> UNSAFE_PACKAGES example_env"
    by (simp add: example_env_def)
  have d1: "list_ex (\<lambda>delimiter. sublist delimiter ''foo>=1.0'')
              (PEP508_VERSION_DELIMITERS example_env)"
    by (simp add: example_env_def sublist_code(3))
  have d2: "\<not> list_ex (\<lambda>delimiter. sublist delimiter ''foo'')
              (PEP508_VERSION_DELIMITERS example_env)"
    by (simp add: example_env_def sublist_code(3))
  show ?thesis
    using h1 h2 h3 h4 d1 d2
      missing_root_classified [OF h1 h2, of "[]"] missing_root_classified [OF h3 h4, of "[]"]
    by simp
qed

text \<open>
  Claim C10. The tolerance for missing packages does not reach the root: a root name
  that is no key of the store, is not unsafe and holds no version delimiter is refused
  with \<open>LockedDepNotFoundError\<close> also when it is a member of \<open>allow_missing\<close>.
\<close>

theorem missing_root_not_tolerated:
  assumes "fmlookup packages dependency_name = None"
    and "dependency_name \<notin> UNSAFE_PACKAGES env"
    and "\<not> list_ex (\<lambda>delimiter. sublist delimiter dependency_name)
              (PEP508_VERSION_DELIMITERS env)"
    and "dependency_name \<in> set allow_missing"
  shows "identify_transients env packages dependency_name allow_missing =
     Inl (LockedDepNotFoundError dependency_name)"
  using assms by (simp add: identify_transients_root_missing on_key_error_def)

theorem missing_root_not_tolerated_witness:
  "fmlookup chain_store ''myproject'' = None
   \<and> ''myproject'' \<notin> UNSAFE_PACKAGES example_env
   \<and> \<not> list_ex (\<lambda>delimiter. sublist delimiter ''myproject'')
          (PEP508_VERSION_DELIMITERS example_env)
   \<and> ''myproject'' \<in> set [''myproject'']
   \<and> identify_transients example_env chain_store ''myproject'' [''myproject''] =
       Inl (LockedDepNotFoundError ''myproject'')"
proof -
  have h1: "fmlookup chain_store ''myproject'' = None"
    by (simp add: chain_store_def fmlookup_of_list)
  have h2: "''myproject'' \<notin> UNSAFE_PACKAGES example_env"
    by (simp add: example_env_def)
  have h3: "\<not> list_ex (\<lambda>delimiter. sublist delimiter ''myproject'')
              (PEP508_VERSION_DELIMITERS example_env)"
    by (simp add: example_env_def sublist_code(3))
  have h4: "''myproject'' \<in> set [''myproject'']"
    by simp
  show ?thesis
    using h1 h2 h3 h4 missing_root_not_tolerated [OF h1 h2 h3 h4]
    by simp
qed

section \<open>Post-order on acyclic graphs\<close>

lemma walk_reachable:
  assumes "\<forall>m. (n, m) \<in> (requires_edge packages)\<^sup>* \<longrightarrow> (\<exists>p. expands env packages m p)"
    and "(n, m) \<in> (requires_edge packages)\<^sup>*"
  shows "(n, m) \<in> (walk_edge env packages)\<^sup>*"
  using assms(2)
proof (induct rule: rtrancl_induct)
  case base
  then show ?case by simp
next
  case (step y z)
  from assms(1) step(1) obtain p where p: "expands env packages y p" by blast
  with step(2) have "(y, z) \<in> walk_edge env packages"
    by (auto simp: walk_edge_def requires_edge_def expands_def)
  with step(3) show ?case by (rule rtrancl_into_rtrancl)
qed

lemma reachable_closed:
  assumes "(n, m) \<in> E\<^sup>*" and "n \<in> A" and "\<And>x y. x \<in> A \<Longrightarrow> (x, y) \<in> E \<Longrightarrow> y \<in> A"
  shows "m \<in> A"
  using assms by (induct rule: rtrancl_induct) auto

lemma ranked_acyclic:
  fixes rank :: "'a \<Rightarrow> nat"
  assumes "\<And>x y. (x, y) \<in> E \<Longrightarrow> rank y < rank x"
  shows "(m, m) \<notin> E\<^sup>+"
proof
  have "rank y < rank x" if "(x, y) \<in> E\<^sup>+" for x y
    using that by (induct rule: trancl_induct) (auto dest: assms intro: less_trans)
  moreover assume "(m, m) \<in> E\<^sup>+"
  ultimately have "rank m < rank m" .
  then show False by simp
qed

lemma dangling_store_edges: "requires_edge dangling_store = {(''a'', ''b'')}"
  by (auto simp: requires_edge_def dangling_store_def fmlookup_of_list mk_package_def
           split: if_splits)

text \<open>
  Claim C1, as it stands, fails. In \<open>dangling_store\<close> the root \<open>a\<close> is a key, and
  what can be reached from it, \<open>a\<close> and \<open>b\<close>, holds no cycle, no unsafe name and no
  incompatible package: every condition of the claim is met. But \<open>b\<close> is no key of
  the store, and \<^verbatim>\<open>identify_transients\<close> returns no list: it raises
  \<open>LockedDepNotFoundError\<close>.
\<close>

theorem postorder_unlocked_requirement_counterexample:
  "keyed_by_name dangling_store
   \<and> fmlookup dangling_store ''a'' = Some (mk_package ''a'' [''b''])
   \<and> acyclic_safe_compatible example_env dangling_store ''a''
   \<and> \<not> requirements_locked dangling_store ''a''
   \<and> identify_transients example_env dangling_store ''a'' [] =
       Inl (LockedDepNotFoundError ''a'')"
proof -
  have wf: "keyed_by_name dangling_store"
    by (auto simp: keyed_by_name_def fmpred_iff dangling_store_def fmlookup_of_list
          mk_package_def split: if_splits)
  have root: "fmlookup dangling_store ''a'' = Some (mk_package ''a'' [''b''])"
    by (simp add: dangling_store_def fmlookup_of_list)
  have cond: "acyclic_safe_compatible example_env dangling_store ''a''"
    unfolding acyclic_safe_compatible_def
  proof (intro allI impI conjI)
    fix m
    assume "(''a'', m) \<in> (requires_edge dangling_store)\<^sup>*"
    then have m: "m \<in> {''a'', ''b''}"
      by (rule reachable_closed) (auto simp: dangling_store_edges)
    show "(m, m) \<notin> (requires_edge dangling_store)\<^sup>+"
      by (rule ranked_acyclic [where rank = "\<lambda>n. if n = ''a'' then 1 else 0"])
         (auto simp: dangling_store_edges)
    from m show "m \<notin> UNSAFE_PACKAGES example_env"
      by (auto simp: example_env_def)
    fix pkg
    assume "fmlookup dangling_store m = Some pkg"
    then show "compatible example_env pkg"
      by (auto simp: compatible_def dangling_store_def fmlookup_of_list mk_package_def
            split: if_splits)
  qed
  have "(''a'', ''b'') \<in> (requires_edge dangling_store)\<^sup>*"
    by (auto simp: dangling_store_edges)
  moreover have "''b'' \<notin> fmdom' dangling_store"
    by (simp add: dangling_store_def fmlookup_dom'_iff fmlookup_of_list)
  ultimately have unlocked: "\<not> requirements_locked dangling_store ''a''"
    unfolding requirements_locked_def by blast
  have val: "identify_transients example_env dangling_store ''a'' [] =
       Inl (LockedDepNotFoundError ''a'')"
    by (simp add: identify_transients_def dangling_store_def fmlookup_of_list mk_package_def
          find_deps_of_deps.simps initial_state_def enter_def example_env_def on_key_error_def
          sublist_code(3))
  from wf root cond unlocked val show ?thesis by simp
qed

text \<open>
  Claim C1, amended: the condition that every requirement is locked is added. Let the
  store file every package under its own name, let the root name be a key of it, and
  let the part of the graph that can be reached from the root along \<^verbatim>\<open>requires\<close> hold
  no cycle, no unsafe name and no incompatible package, and only names that are keys of
  the store. Then \<^verbatim>\<open>identify_transients\<close> returns a list that holds the package of the
  root and the package of every name that can be reached from it, and nothing else,
  holds no package twice, and is in post-order: the package of every requirement
  stands before the package that requires it. This holds for every \<open>allow_missing\<close>,
  the empty one included.
\<close>

theorem identify_transients_postorder:
  assumes wf: "keyed_by_name packages"
    and root: "fmlookup packages dependency_name = Some root"
    and cond: "acyclic_safe_compatible env packages dependency_name"
    and locked: "requirements_locked packages dependency_name"
  shows "\<exists>ts. identify_transients env packages dependency_name allow_missing = Inr ts
     \<and> distinct ts
     \<and> root \<in> set ts
     \<and> (\<forall>m pkg. (dependency_name, m) \<in> (requires_edge packages)\<^sup>* \<longrightarrow>
          fmlookup packages m = Some pkg \<longrightarrow> pkg \<in> set ts)
     \<and> (\<forall>p \<in> set ts. \<exists>m. (dependency_name, m) \<in> (requires_edge packages)\<^sup>* \<and>
          fmlookup packages m = Some p)
     \<and> deps_first packages ts"
proof -
  have inst: "\<forall>m. (dependency_name, m) \<in> (requires_edge packages)\<^sup>* \<longrightarrow>
      (\<exists>p. expands env packages m p)"
  proof (intro allI impI)
    fix m
    assume m: "(dependency_name, m) \<in> (requires_edge packages)\<^sup>*"
    with locked obtain p where p: "fmlookup packages m = Some p"
      by (auto simp: requirements_locked_def fmlookup_dom'_iff)
    with cond m have "m \<notin> UNSAFE_PACKAGES env" "compatible env p"
      by (auto simp: acyclic_safe_compatible_def)
    with p show "\<exists>p. expands env packages m p"
      by (auto simp: expands_def)
  qed
  have acyc: "\<forall>m. (dependency_name, m) \<in> (requires_edge packages)\<^sup>* \<longrightarrow>
      (m, m) \<notin> (requires_edge packages)\<^sup>+"
    using cond by (simp add: acyclic_safe_compatible_def)
  from wf root have nm: "name root = dependency_name" by (rule keyed_by_nameD)
  obtain r st where r: "find_deps_of_deps env packages allow_missing dependency_name initial_state = (r, st)"
    by (cases "find_deps_of_deps env packages allow_missing dependency_name initial_state")
  have "\<forall>m. (dependency_name, m) \<in> (requires_edge packages)\<^sup>* \<longrightarrow>
      resolvable env packages allow_missing m"
    using inst by (auto simp: resolvable_def expands_def fmlookup_dom'_iff)
  from returns_when_reachable_resolvable(1) [OF this, of initial_state] r
  have ret: "r = Returned" by simp
  from identify_transients_returned [OF root, of env allow_missing st] r ret nm
  have res: "identify_transients env packages dependency_name allow_missing = Inr (transients st)"
    by simp
  have d: "distinct (transients st)"
    using transients_expand(2) [OF r wf] .
  have incl: "pkg \<in> set (transients st)"
    if "(dependency_name, m) \<in> (requires_edge packages)\<^sup>*" "fmlookup packages m = Some pkg"
    for m pkg
  proof -
    from inst that(1) obtain p where "expands env packages m p" by blast
    with that(2) have e: "expands env packages m pkg" by (simp add: expands_def)
    from walk_reachable [OF inst that(1)] have "(dependency_name, m) \<in> (walk_edge env packages)\<^sup>*" .
    with r [unfolded ret] show ?thesis using e by (rule reachable_included)
  qed
  from incl [of dependency_name root] root have rt: "root \<in> set (transients st)" by simp
  have only: "\<exists>m. (dependency_name, m) \<in> (requires_edge packages)\<^sup>* \<and>
      fmlookup packages m = Some p" if "p \<in> set (transients st)" for p
    using r that by (rule transients_reachable)
  have "acyclic_below env packages dependency_name"
    using inst acyc by (simp add: acyclic_below_def)
  from postorder(1) [OF r [unfolded ret] this]
  have "deps_first packages (transients st)"
    by (simp add: deps_first_def)
  with res d rt incl only show ?thesis by blast
qed

lemma chain_store_edges: "requires_edge chain_store = {(''a'', ''b''), (''b'', ''c'')}"
  by (auto simp: requires_edge_def chain_store_def fmlookup_of_list mk_package_def
           split: if_splits)

lemma chain_store_keyed: "keyed_by_name chain_store"
  by (auto simp: keyed_by_name_def fmpred_iff chain_store_def fmlookup_of_list mk_package_def
           split: if_splits)

lemma chain_store_reachable:
  "(''a'', m) \<in> (requires_edge chain_store)\<^sup>* \<Longrightarrow> m \<in> {''a'', ''b'', ''c''}"
  by (rule reachable_closed) (auto simp: chain_store_edges)

lemma chain_store_conditions: "acyclic_safe_compatible example_env chain_store ''a''"
  unfolding acyclic_safe_compatible_def
proof (intro allI impI conjI)
  fix m
  assume "(''a'', m) \<in> (requires_edge chain_store)\<^sup>*"
  then have m: "m \<in> {''a'', ''b'', ''c''}" by (rule chain_store_reachable)
  show "(m, m) \<notin> (requires_edge chain_store)\<^sup>+"
    by (rule ranked_acyclic [where rank = "\<lambda>n. if n = ''a'' then 2 else if n = ''b'' then 1 else 0"])
       (auto simp: chain_store_edges)
  from m show "m \<notin> UNSAFE_PACKAGES example_env"
    by (auto simp: example_env_def)
  fix pkg
  assume "fmlookup chain_store m = Some pkg"
  then show "compatible example_env pkg"
    by (auto simp: compatible_def chain_store_def fmlookup_of_list mk_package_def
          split: if_splits)
qed

lemma chain_store_locked: "requirements_locked chain_store ''a''"
  unfolding requirements_locked_def
proof (intro allI impI)
  fix m
  assume "(''a'', m) \<in> (requires_edge chain_store)\<^sup>*"
  then have "m \<in> {''a'', ''b'', ''c''}" by (rule chain_store_reachable)
  then show "m \<in> fmdom' chain_store"
    by (auto simp: chain_store_def fmlookup_dom'_iff fmlookup_of_list)
qed

theorem identify_transients_postorder_witness:
  "keyed_by_name chain_store
   \<and> fmlookup chain_store ''a'' = Some (mk_package ''a'' [''b''])
   \<and> acyclic_safe_compatible example_env chain_store ''a''
   \<and> requirements_locked chain_store ''a''
   \<and> identify_transients example_env chain_store ''a'' [] =
       Inr [mk_package ''c'' [], mk_package ''b'' [''c''], mk_package ''a'' [''b'']]
   \<and> distinct [mk_package ''c'' [], mk_package ''b'' [''c''], mk_package ''a'' [''b'']]
   \<and> deps_first chain_store
       [mk_package ''c'' [], mk_package ''b'' [''c''], mk_package ''a'' [''b'']]"
proof -
  have root: "fmlookup chain_store ''a'' = Some (mk_package ''a'' [''b''])"
    by (simp add: chain_store_def fmlookup_of_list)
  have val: "identify_transients example_env chain_store ''a'' [] =
       Inr [mk_package ''c'' [], mk_package ''b'' [''c''], mk_package ''a'' [''b'']]"
    by (simp add: identify_transients_def chain_store_def fmlookup_of_list mk_package_def
          find_deps_of_deps.simps initial_state_def enter_def example_env_def)
  from identify_transients_postorder
    [OF chain_store_keyed root chain_store_conditions chain_store_locked, of "[]"] val
  have "distinct [mk_package ''c'' [], mk_package ''b'' [''c''], mk_package ''a'' [''b'']]"
    and "deps_first chain_store
       [mk_package ''c'' [], mk_package ''b'' [''c''], mk_package ''a'' [''b'']]"
    by auto
  with chain_store_keyed root chain_store_conditions chain_store_locked val
  show ?thesis by simp
qed

section \<open>Cyclic stores\<close>

lemma calls_distinct:
  "calls_ok (snd (find_deps_of_deps env packages allow_missing nm initial_state))"
  by (rule calls_ok_traversal(1)) (simp_all add: calls_ok_def)

text \<open>
  Claim C2. The traversal is a total function: the definition above was accepted with
  a proof that every call ends, whatever the store, cycles included. From the empty
  state it calls the helper at most once with any name: the record of its calls names
  nothing twice and is the set \<open>searched\<close>. It raises only for a name that is no key
  of the store (and is neither unsafe nor allowed to be missing), never for a cycle:
  when every name that can be reached from the root is a key of the store, unsafe or
  allowed to be missing, \<^verbatim>\<open>identify_transients\<close> returns the list the traversal built.
\<close>

theorem cyclic_store_terminates:
  assumes "fmlookup packages dependency_name = Some root"
    and "\<forall>m. (name root, m) \<in> (requires_edge packages)\<^sup>* \<longrightarrow>
           resolvable env packages allow_missing m"
  shows "(\<exists>st. find_deps_of_deps env packages allow_missing (name root) initial_state =
              (Returned, st)
            \<and> identify_transients env packages dependency_name allow_missing =
                Inr (transients st))
     \<and> (\<forall>nm. distinct (calls (snd (find_deps_of_deps env packages allow_missing nm initial_state)))
            \<and> set (calls (snd (find_deps_of_deps env packages allow_missing nm initial_state))) =
                searched (snd (find_deps_of_deps env packages allow_missing nm initial_state)))
     \<and> (\<forall>nm err. fst (find_deps_of_deps env packages allow_missing nm initial_state) = Raised err \<longrightarrow>
            (\<exists>k. err = KeyError k \<and> fmlookup packages k = None \<and> k \<notin> set allow_missing
               \<and> k \<notin> UNSAFE_PACKAGES env))"
proof (intro conjI allI impI)
  obtain r st where r: "find_deps_of_deps env packages allow_missing (name root) initial_state = (r, st)"
    by (cases "find_deps_of_deps env packages allow_missing (name root) initial_state")
  from returns_when_reachable_resolvable(1) [OF assms(2), of initial_state] r
  have ret: "r = Returned" by simp
  with r identify_transients_returned [OF assms(1), of env allow_missing st]
  show "\<exists>st. find_deps_of_deps env packages allow_missing (name root) initial_state =
              (Returned, st)
            \<and> identify_transients env packages dependency_name allow_missing =
                Inr (transients st)"
    by simp
next
  fix nm
  from calls_distinct [of env packages allow_missing nm]
  show "distinct (calls (snd (find_deps_of_deps env packages allow_missing nm initial_state)))"
    and "set (calls (snd (find_deps_of_deps env packages allow_missing nm initial_state))) =
                searched (snd (find_deps_of_deps env packages allow_missing nm initial_state))"
    by (simp_all add: calls_ok_def)
next
  fix nm err
  assume "fst (find_deps_of_deps env packages allow_missing nm initial_state) = Raised err"
  from raise_is_missing_key(1) [OF this]
  show "\<exists>k. err = KeyError k \<and> fmlookup packages k = None \<and> k \<notin> set allow_missing
               \<and> k \<notin> UNSAFE_PACKAGES env"
    by blast
qed

lemma cycle_store_edges: "requires_edge cycle_store = {(''a'', ''b''), (''b'', ''a'')}"
  by (auto simp: requires_edge_def cycle_store_def fmlookup_of_list mk_package_def
           split: if_splits)

theorem cyclic_store_terminates_witness:
  "fmlookup cycle_store ''a'' = Some (mk_package ''a'' [''b''])
   \<and> (''a'', ''a'') \<in> (requires_edge cycle_store)\<^sup>+
   \<and> identify_transients example_env cycle_store ''a'' [] =
       Inr [mk_package ''b'' [''a''], mk_package ''a'' [''b'']]
   \<and> calls (snd (find_deps_of_deps example_env cycle_store [] ''a'' initial_state)) =
       [''a'', ''b'']
   \<and> distinct (calls (snd (find_deps_of_deps example_env cycle_store [] ''a'' initial_state)))"
proof -
  have root: "fmlookup cycle_store ''a'' = Some (mk_package ''a'' [''b''])"
    by (simp add: cycle_store_def fmlookup_of_list)
  have nm: "name (mk_package ''a'' [''b'']) = ''a''"
    by (simp add: mk_package_def)
  have cyc: "(''a'', ''a'') \<in> (requires_edge cycle_store)\<^sup>+"
    by (rule trancl_into_trancl [of _ "''b''"]) (auto simp: cycle_store_edges)
  have res: "\<forall>m. (name (mk_package ''a'' [''b'']), m) \<in> (requires_edge cycle_store)\<^sup>* \<longrightarrow>
      resolvable example_env cycle_store [] m"
  proof (intro allI impI)
    fix m
    assume "(name (mk_package ''a'' [''b'']), m) \<in> (requires_edge cycle_store)\<^sup>*"
    then have "m \<in> {''a'', ''b''}"
      unfolding nm by (rule reachable_closed) (auto simp: cycle_store_edges)
    then show "resolvable example_env cycle_store [] m"
      by (auto simp: resolvable_def cycle_store_def fmlookup_dom'_iff fmlookup_of_list)
  qed
  have val: "find_deps_of_deps example_env cycle_store [] ''a'' initial_state =
      (Returned, \<lparr>searched = {''a'', ''b''},
         transients = [mk_package ''b'' [''a''], mk_package ''a'' [''b'']],
         calls = [''a'', ''b'']\<rparr>)"
    by (simp add: cycle_store_def fmlookup_of_list mk_package_def
          find_deps_of_deps.simps initial_state_def enter_def example_env_def insert_commute)
  from cyclic_store_terminates [OF root res] val
  have "identify_transients example_env cycle_store ''a'' [] =
       Inr [mk_package ''b'' [''a''], mk_package ''a'' [''b'']]"
    and "distinct (calls (snd (find_deps_of_deps example_env cycle_store [] ''a'' initial_state)))"
    by (auto simp: nm)
  with root cyc val show ?thesis by simp
qed

section \<open>A requirement that is not in the lockfile\<close>

lemma raised_at_last_call:
  "fst (find_deps_of_deps env packages allow_missing nm st) = Raised (KeyError k) \<Longrightarrow>
     calls (snd (find_deps_of_deps env packages allow_missing nm st)) \<noteq> [] \<and>
     last (calls (snd (find_deps_of_deps env packages allow_missing nm st))) = k"
  "fst (requires_loop env packages allow_missing deps st) = Raised (KeyError k) \<Longrightarrow>
     calls (snd (requires_loop env packages allow_missing deps st)) \<noteq> [] \<and>
     last (calls (snd (requires_loop env packages allow_missing deps st))) = k"
proof (induct env packages allow_missing nm st and env packages allow_missing deps st
       rule: find_deps_of_deps_requires_loop.induct)
  case (1 env packages allow_missing nm st)
  show ?case
  proof (cases rule: find_cases [of env packages allow_missing nm st])
    case skip
    with 1(2) show ?thesis by simp
  next
    case missing
    with 1(2) show ?thesis by (simp add: calls_enter)
  next
    case (expand pkg)
    obtain r st2 where r: "requires_loop env packages allow_missing (requires pkg) (enter nm st) = (r, st2)"
      by (cases "requires_loop env packages allow_missing (requires pkg) (enter nm st)")
    with 1(2) have ret: "r = Raised (KeyError k)"
      by (auto simp: find_expands [OF expand] split: outcome.splits)
    with 1(1) [of pkg] expand r show ?thesis
      by (simp add: expands_def compatible_def find_expands [OF expand])
  qed
next
  case (2 env packages allow_missing st)
  then show ?case by simp
next
  case (3 env packages allow_missing dep deps st)
  show ?case
  proof (cases "dep_name dep \<in> searched st")
    case True
    with 3 show ?thesis by simp
  next
    case False
    obtain r st1 where r: "find_deps_of_deps env packages allow_missing (dep_name dep) st = (r, st1)"
      by (cases "find_deps_of_deps env packages allow_missing (dep_name dep) st")
    show ?thesis
    proof (cases r)
      case Returned
      with 3(2) [OF False r [symmetric] Returned] 3(4) r False show ?thesis by simp
    next
      case (Raised e)
      with r False 3(4) have "e = KeyError k" by simp
      with 3(1) [OF False] r Raised False show ?thesis by simp
    qed
  qed
qed

text \<open>
  Claim C7, as it stands, fails. In \<open>dangling_store\<close> the package \<open>a\<close> requires
  \<open>b\<close>, which is no key. The helper raises \<open>KeyError\<close> for \<open>b\<close>, and the call
  for the root \<open>a\<close> ends with \<open>LockedDepNotFoundError\<close> for \<open>a\<close>: the
  \<^verbatim>\<open>except KeyError\<close> of \<^verbatim>\<open>identify_transients\<close> encloses the traversal and builds its
  exception from \<^verbatim>\<open>dependency_name\<close>. No error that names \<open>b\<close> comes out.
\<close>

theorem deep_failure_names_root_counterexample:
  "fmlookup dangling_store ''a'' = Some (mk_package ''a'' [''b''])
   \<and> fmlookup dangling_store ''b'' = None
   \<and> fst (find_deps_of_deps example_env dangling_store [] ''a'' initial_state) =
       Raised (KeyError ''b'')
   \<and> identify_transients example_env dangling_store ''a'' [] =
       Inl (LockedDepNotFoundError ''a'')
   \<and> identify_transients example_env dangling_store ''a'' [] \<noteq> Inl (KeyError ''b'')
   \<and> identify_transients example_env dangling_store ''a'' [] \<noteq>
       Inl (LockedDepNotFoundError ''b'')
   \<and> identify_transients example_env dangling_store ''a'' [] \<noteq>
       Inl (LockedDepVersionConflictError ''b'')"
  by (simp add: identify_transients_def dangling_store_def fmlookup_of_list mk_package_def
        find_deps_of_deps.simps initial_state_def enter_def example_env_def on_key_error_def
        sublist_code(3))

text \<open>
  The helper passes a failure up. Whenever a call of the helper, or anything it calls,
  reaches a name that is no key of the store, is not unsafe and is not allowed to be
  missing, the call ends by raising the \<open>KeyError\<close> of that name.
\<close>

lemma raise_propagates:
  "\<exists>new. calls (snd (find_deps_of_deps env packages allow_missing nm st)) = calls st @ new \<and>
     (\<forall>k \<in> set new. fmlookup packages k = None \<longrightarrow> k \<notin> UNSAFE_PACKAGES env \<longrightarrow>
        k \<notin> set allow_missing \<longrightarrow>
        fst (find_deps_of_deps env packages allow_missing nm st) = Raised (KeyError k))"
  "\<exists>new. calls (snd (requires_loop env packages allow_missing deps st)) = calls st @ new \<and>
     (\<forall>k \<in> set new. fmlookup packages k = None \<longrightarrow> k \<notin> UNSAFE_PACKAGES env \<longrightarrow>
        k \<notin> set allow_missing \<longrightarrow>
        fst (requires_loop env packages allow_missing deps st) = Raised (KeyError k))"
proof (induct env packages allow_missing nm st and env packages allow_missing deps st
       rule: find_deps_of_deps_requires_loop.induct)
  case (1 env packages allow_missing nm st)
  show ?case
  proof (cases rule: find_cases [of env packages allow_missing nm st])
    case skip
    have "\<not> (fmlookup packages nm = None \<and> nm \<notin> UNSAFE_PACKAGES env \<and> nm \<notin> set allow_missing)"
    proof
      assume "fmlookup packages nm = None \<and> nm \<notin> UNSAFE_PACKAGES env \<and> nm \<notin> set allow_missing"
      then have "find_deps_of_deps env packages allow_missing nm st =
          (Raised (KeyError nm), enter nm st)"
        by (simp add: find_missing)
      with skip(1) show False by simp
    qed
    with skip(1) show ?thesis
      by (intro exI [of _ "[nm]"]) (auto simp: calls_enter)
  next
    case missing
    then show ?thesis
      by (intro exI [of _ "[nm]"]) (simp add: calls_enter)
  next
    case (expand pkg)
    obtain r st2 where r: "requires_loop env packages allow_missing (requires pkg) (enter nm st) = (r, st2)"
      by (cases "requires_loop env packages allow_missing (requires pkg) (enter nm st)")
    from 1 [of pkg] expand r obtain new where new:
      "calls st2 = calls st @ [nm] @ new"
      "\<forall>k \<in> set new. fmlookup packages k = None \<longrightarrow> k \<notin> UNSAFE_PACKAGES env \<longrightarrow>
         k \<notin> set allow_missing \<longrightarrow> r = Raised (KeyError k)"
      by (auto simp: expands_def compatible_def calls_enter)
    have c: "calls (snd (find_deps_of_deps env packages allow_missing nm st)) = calls st2"
      using r by (cases r) (simp_all add: find_expands [OF expand])
    have f: "fst (find_deps_of_deps env packages allow_missing nm st) = r"
      using r by (cases r) (simp_all add: find_expands [OF expand])
    from expand have "fmlookup packages nm \<noteq> None" by (simp add: expands_def)
    with new show ?thesis
      unfolding c f by (intro exI [of _ "nm # new"]) auto
  qed
next
  case (2 env packages allow_missing st)
  then show ?case by simp
next
  case (3 env packages allow_missing dep deps st)
  show ?case
  proof (cases "dep_name dep \<in> searched st")
    case True
    with 3(3) show ?thesis by simp
  next
    case False
    obtain r st1 where r: "find_deps_of_deps env packages allow_missing (dep_name dep) st = (r, st1)"
      by (cases "find_deps_of_deps env packages allow_missing (dep_name dep) st")
    from 3(1) [OF False] r obtain new1 where new1:
      "calls st1 = calls st @ new1"
      "\<forall>k \<in> set new1. fmlookup packages k = None \<longrightarrow> k \<notin> UNSAFE_PACKAGES env \<longrightarrow>
         k \<notin> set allow_missing \<longrightarrow> r = Raised (KeyError k)"
      by auto
    show ?thesis
    proof (cases r)
      case Returned
      let ?rest = "requires_loop env packages allow_missing deps st1"
      have res: "requires_loop env packages allow_missing (dep # deps) st = ?rest"
        using r Returned False by simp
      from 3(2) [OF False r [symmetric] Returned] obtain new2 where new2:
        "calls (snd ?rest) = calls st1 @ new2"
        "\<forall>k \<in> set new2. fmlookup packages k = None \<longrightarrow> k \<notin> UNSAFE_PACKAGES env \<longrightarrow>
           k \<notin> set allow_missing \<longrightarrow> fst ?rest = Raised (KeyError k)"
        by auto
      from new1(2) Returned
      have "\<forall>k \<in> set new1. \<not> (fmlookup packages k = None \<and> k \<notin> UNSAFE_PACKAGES env \<and>
          k \<notin> set allow_missing)"
        by auto
      with new1(1) new2 show ?thesis
        unfolding res by (intro exI [of _ "new1 @ new2"]) auto
    next
      case (Raised err)
      have res: "requires_loop env packages allow_missing (dep # deps) st = (Raised err, st1)"
        using r Raised False by simp
      from new1 Raised show ?thesis
        unfolding res by (intro exI [of _ new1]) auto
    qed
  qed
qed

lemma walked_searched:
  assumes "find_deps_of_deps env packages allow_missing nm initial_state = (Returned, st)"
    and "(nm, m) \<in> (walk_edge env packages)\<^sup>*"
  shows "m \<in> searched st"
proof -
  from visited_closed(1) [of env packages allow_missing nm initial_state] assms(1)
  have cl: "\<forall>m \<in> searched st. \<forall>p. expands env packages m p \<longrightarrow>
      dep_name ` set (requires p) \<subseteq> searched st"
    by simp
  from find_searched [of nm env packages allow_missing initial_state] assms(1)
  have "nm \<in> searched st" by simp
  with assms(2) show ?thesis
  proof (induct rule: rtrancl_induct)
    case base
    then show ?case .
  next
    case (step y z)
    from step(2) obtain pkg where "expands env packages y pkg" "z \<in> dep_name ` set (requires pkg)"
      by (auto simp: walk_edge_def)
    with cl step(3,4) show ?case by blast
  qed
qed

text \<open>
  Claim C7, amended. Let the root be a key of the store, and let \<open>k\<close> be a name that
  is no key of the store, is not unsafe and is not in \<open>allow_missing\<close>. If the
  traversal calls the helper with \<open>k\<close>, however deep, the traversal as a whole raises
  the \<open>KeyError\<close> of \<open>k\<close>: every level of the recursion passes it up unchanged, and
  \<open>k\<close> is the last call made. If \<open>k\<close> can be reached from the root along
  requirements of packages that are walked, the traversal raises the \<open>KeyError\<close> of
  such a name. Conversely, whatever the traversal raises is the \<open>KeyError\<close> of such a
  name, the last one called. In each case \<^verbatim>\<open>identify_transients\<close> catches it and
  answers as it does for a missing root, from the root name alone: the empty list when
  the root name is unsafe, \<open>LockedDepVersionConflictError\<close> for the root name when a
  version delimiter occurs in the root name, and \<open>LockedDepNotFoundError\<close> for the
  root name otherwise.
\<close>

theorem deep_failure_reported_for_root:
  assumes "fmlookup packages dependency_name = Some root"
  shows "(\<forall>k. k \<in> set (calls (snd (find_deps_of_deps env packages allow_missing (name root)
                                     initial_state))) \<longrightarrow>
            fmlookup packages k = None \<longrightarrow> k \<notin> UNSAFE_PACKAGES env \<longrightarrow>
            k \<notin> set allow_missing \<longrightarrow>
              fst (find_deps_of_deps env packages allow_missing (name root) initial_state) =
                Raised (KeyError k)
              \<and> last (calls (snd (find_deps_of_deps env packages allow_missing (name root)
                                     initial_state))) = k
              \<and> identify_transients env packages dependency_name allow_missing =
                  (if dependency_name \<in> UNSAFE_PACKAGES env then Inr []
                   else if list_ex (\<lambda>delimiter. sublist delimiter dependency_name)
                             (PEP508_VERSION_DELIMITERS env)
                     then Inl (LockedDepVersionConflictError dependency_name)
                   else Inl (LockedDepNotFoundError dependency_name)))
     \<and> (\<forall>k. (name root, k) \<in> (walk_edge env packages)\<^sup>* \<longrightarrow>
            fmlookup packages k = None \<longrightarrow> k \<notin> UNSAFE_PACKAGES env \<longrightarrow>
            k \<notin> set allow_missing \<longrightarrow>
              (\<exists>k'. fmlookup packages k' = None \<and> k' \<notin> UNSAFE_PACKAGES env
                  \<and> k' \<notin> set allow_missing
                  \<and> fst (find_deps_of_deps env packages allow_missing (name root)
                            initial_state) = Raised (KeyError k'))
              \<and> identify_transients env packages dependency_name allow_missing =
                  (if dependency_name \<in> UNSAFE_PACKAGES env then Inr []
                   else if list_ex (\<lambda>delimiter. sublist delimiter dependency_name)
                             (PEP508_VERSION_DELIMITERS env)
                     then Inl (LockedDepVersionConflictError dependency_name)
                   else Inl (LockedDepNotFoundError dependency_name)))
     \<and> (\<forall>err. fst (find_deps_of_deps env packages allow_missing (name root) initial_state) =
                 Raised err \<longrightarrow>
              (\<exists>k. err = KeyError k \<and> fmlookup packages k = None \<and> k \<notin> set allow_missing
                  \<and> k \<notin> UNSAFE_PACKAGES env
                  \<and> k \<in> set (calls (snd (find_deps_of_deps env packages allow_missing
                                            (name root) initial_state)))
                  \<and> last (calls (snd (find_deps_of_deps env packages allow_missing
                                          (name root) initial_state))) = k)
              \<and> identify_transients env packages dependency_name allow_missing =
                  (if dependency_name \<in> UNSAFE_PACKAGES env then Inr []
                   else if list_ex (\<lambda>delimiter. sublist delimiter dependency_name)
                             (PEP508_VERSION_DELIMITERS env)
                     then Inl (LockedDepVersionConflictError dependency_name)
                   else Inl (LockedDepNotFoundError dependency_name)))"
proof -
  obtain r st where F: "find_deps_of_deps env packages allow_missing (name root) initial_state = (r, st)"
    by (cases "find_deps_of_deps env packages allow_missing (name root) initial_state")
  let ?answer = "if dependency_name \<in> UNSAFE_PACKAGES env then Inr []
                   else if list_ex (\<lambda>delimiter. sublist delimiter dependency_name)
                             (PEP508_VERSION_DELIMITERS env)
                     then Inl (LockedDepVersionConflictError dependency_name)
                   else Inl (LockedDepNotFoundError dependency_name)"
  have translated: "identify_transients env packages dependency_name allow_missing = ?answer"
    if "r = Raised err" for err
    using identify_transients_raised [OF assms, of env allow_missing err st] F that
    by (simp add: on_key_error_def)
  have up: "r = Raised (KeyError k)"
    if "k \<in> set (calls st)" "fmlookup packages k = None" "k \<notin> UNSAFE_PACKAGES env"
      "k \<notin> set allow_missing" for k
    using raise_propagates(1) [of env packages allow_missing "name root" initial_state] F that
    by auto
  have at_end: "calls st \<noteq> [] \<and> last (calls st) = k" if "r = Raised (KeyError k)" for k
    using raised_at_last_call(1) [of env packages allow_missing "name root" initial_state k] F that
    by simp
  have cause: "\<exists>k. err = KeyError k \<and> fmlookup packages k = None \<and> k \<notin> set allow_missing
      \<and> k \<notin> UNSAFE_PACKAGES env" if "r = Raised err" for err
    using raise_is_missing_key(1) [of env packages allow_missing "name root" initial_state err] F that
    by auto
  have A: "r = Raised (KeyError k) \<and> last (calls st) = k
      \<and> identify_transients env packages dependency_name allow_missing = ?answer"
    if "k \<in> set (calls st)" "fmlookup packages k = None" "k \<notin> UNSAFE_PACKAGES env"
      "k \<notin> set allow_missing" for k
    using up [OF that] at_end translated by blast
  have B: "(\<exists>k'. fmlookup packages k' = None \<and> k' \<notin> UNSAFE_PACKAGES env
                  \<and> k' \<notin> set allow_missing \<and> r = Raised (KeyError k'))
      \<and> identify_transients env packages dependency_name allow_missing = ?answer"
    if "(name root, k) \<in> (walk_edge env packages)\<^sup>*" "fmlookup packages k = None"
      "k \<notin> UNSAFE_PACKAGES env" "k \<notin> set allow_missing" for k
  proof (cases r)
    case Returned
    with F that(1) have "k \<in> searched st" by (auto intro: walked_searched)
    moreover from calls_distinct [of env packages allow_missing "name root"] F
    have "set (calls st) = searched st" by (simp add: calls_ok_def)
    ultimately have "k \<in> set (calls st)" by simp
    from up [OF this that(2,3,4)] Returned show ?thesis by simp
  next
    case (Raised err)
    with cause [OF Raised] translated [OF Raised] show ?thesis by blast
  qed
  have C: "(\<exists>k. err = KeyError k \<and> fmlookup packages k = None \<and> k \<notin> set allow_missing
                  \<and> k \<notin> UNSAFE_PACKAGES env \<and> k \<in> set (calls st) \<and> last (calls st) = k)
      \<and> identify_transients env packages dependency_name allow_missing = ?answer"
    if "r = Raised err" for err
  proof -
    from cause [OF that] obtain k where k: "err = KeyError k" "fmlookup packages k = None"
      "k \<notin> set allow_missing" "k \<notin> UNSAFE_PACKAGES env"
      by blast
    from at_end [of k] that k(1) have "calls st \<noteq> []" "last (calls st) = k" by simp_all
    then have "k \<in> set (calls st)" by (metis last_in_set)
    with k \<open>last (calls st) = k\<close> translated [OF that] show ?thesis by blast
  qed
  from A B C show ?thesis unfolding F fst_conv snd_conv by blast
qed

theorem deep_failure_reported_for_root_witness:
  "fmlookup deep_store ''a'' = Some (mk_package ''a'' [''b'', ''e''])
   \<and> fmlookup deep_store ''d'' = None
   \<and> ''d'' \<notin> UNSAFE_PACKAGES example_env
   \<and> (''a'', ''d'') \<in> (walk_edge example_env deep_store)\<^sup>*
   \<and> find_deps_of_deps example_env deep_store [] ''a'' initial_state =
       (Raised (KeyError ''d''),
        \<lparr>searched = {''a'', ''b'', ''c'', ''d''}, transients = [],
           calls = [''a'', ''b'', ''c'', ''d'']\<rparr>)
   \<and> identify_transients example_env deep_store ''a'' [] =
       Inl (LockedDepNotFoundError ''a'')"
proof -
  let ?a = "mk_package ''a'' [''b'', ''e'']"
  have root: "fmlookup deep_store ''a'' = Some ?a"
    and d: "fmlookup deep_store ''d'' = None"
    by (simp_all add: deep_store_def fmlookup_of_list)
  have nm: "name ?a = ''a''" by (simp add: mk_package_def)
  have safe: "''d'' \<notin> UNSAFE_PACKAGES example_env" "''a'' \<notin> UNSAFE_PACKAGES example_env"
    and nodelim: "\<not> list_ex (\<lambda>delimiter. sublist delimiter ''a'')
              (PEP508_VERSION_DELIMITERS example_env)"
    by (simp_all add: example_env_def sublist_code(3))
  have e: "expands example_env deep_store ''a'' ?a"
    "expands example_env deep_store ''b'' (mk_package ''b'' [''c''])"
    "expands example_env deep_store ''c'' (mk_package ''c'' [''d''])"
    by (simp_all add: expands_def compatible_def deep_store_def fmlookup_of_list
          mk_package_def example_env_def)
  have "(''a'', ''b'') \<in> walk_edge example_env deep_store"
    "(''b'', ''c'') \<in> walk_edge example_env deep_store"
    "(''c'', ''d'') \<in> walk_edge example_env deep_store"
    unfolding walk_edge_def using e by (auto simp: mk_package_def)
  then have walk: "(''a'', ''d'') \<in> (walk_edge example_env deep_store)\<^sup>*"
    by (meson rtrancl.rtrancl_refl rtrancl.rtrancl_into_rtrancl)
  have val: "find_deps_of_deps example_env deep_store [] ''a'' initial_state =
       (Raised (KeyError ''d''),
        \<lparr>searched = {''a'', ''b'', ''c'', ''d''}, transients = [],
           calls = [''a'', ''b'', ''c'', ''d'']\<rparr>)"
    by (simp add: deep_store_def fmlookup_of_list mk_package_def
          find_deps_of_deps.simps initial_state_def enter_def example_env_def insert_commute)
  note below = deep_failure_reported_for_root [OF root, of example_env "[]",
      THEN conjunct2, THEN conjunct1, rule_format, of "''d''"]
  from below walk d safe(1) safe(2) nodelim
  have "identify_transients example_env deep_store ''a'' [] =
       Inl (LockedDepNotFoundError ''a'')"
    by (simp add: nm)
  with root d safe(1) walk val show ?thesis by simp
qed

section \<open>Upper case in a name\<close>

text \<open>
  Claim C9 at this input. \<^verbatim>\<open>identify_transients\<close> looks the root name up as it is
  given: for \<open>Foo\<close> it finds nothing, for \<open>foo\<close> it finds the package.
  \<^verbatim>\<open>find_env_dependencies\<close> lowercases the name first and returns the package;
  \<^verbatim>\<open>find_dev_dependencies\<close> passes \<open>Foo\<close> on and ends with
  \<open>LockedDepNotFoundError\<close>.
\<close>

theorem dev_dependency_not_lowercased:
  "lower example_env ''Foo'' = ''foo''
   \<and> identify_transients example_env foo_store ''foo'' [''myproject''] =
       Inr [mk_package ''foo'' []]
   \<and> identify_transients example_env foo_store ''Foo'' [''myproject''] =
       Inl (LockedDepNotFoundError ''Foo'')
   \<and> find_env_dependencies example_env foo_venv foo_poetry foo_store =
       Inr [mk_package ''foo'' []]
   \<and> find_dev_dependencies example_env foo_poetry foo_store =
       Inl (LockedDepNotFoundError ''Foo'')"
  by (simp add: find_env_dependencies_def find_dev_dependencies_def foo_venv_def foo_poetry_def
        ascii_lower_def ascii_lower_char_def
        identify_transients_def foo_store_def fmlookup_of_list mk_package_def
        find_deps_of_deps.simps initial_state_def enter_def example_env_def on_key_error_def
        sublist_code(3))

text \<open>
  The builders that lowercase treat a name and its lowercased form alike, whenever
  lowercasing a second time changes nothing, as is the case of \<open>ascii_lower\<close>.
\<close>

lemma ascii_lower_idem: "ascii_lower (ascii_lower s) = ascii_lower s"
proof -
  have "ascii_lower_char (ascii_lower_char c) = ascii_lower_char c" for c
    by (simp add: ascii_lower_char_def split: option.splits if_splits)
  then show ?thesis by (simp add: ascii_lower_def)
qed

lemma env_loop_lower:
  assumes "\<And>s. lower env (lower env s) = lower env s"
  shows "env_loop env po packages (map (lower env) deps) acc = env_loop env po packages deps acc"
  by (induct deps arbitrary: acc) (simp_all add: assms split: sum.splits)

lemma find_env_dependencies_case_insensitive:
  assumes "\<And>s. lower env (lower env s) = lower env s"
  shows "find_env_dependencies env (ve\<lparr>locked_deps := map (lower env) (locked_deps ve)\<rparr>) po
      packages = find_env_dependencies env ve po packages"
  by (simp add: find_env_dependencies_def env_loop_lower [OF assms])

section \<open>Names that are skipped\<close>

lemma result_packages_expand:
  assumes "identify_transients env packages dependency_name allow_missing = Inr ts"
    and "p \<in> set ts"
  shows "\<exists>m. expands env packages m p"
  using assms(1)
proof (cases rule: identify_transients_Inr_cases)
  case empty
  with assms(2) show ?thesis by simp
next
  case (walked root st)
  with transients_expand(1) [OF walked(2)] assms(2) show ?thesis by blast
qed

lemma result_includes_walked:
  assumes "fmlookup packages dependency_name = Some root"
    and "dependency_name \<notin> UNSAFE_PACKAGES env"
    and "identify_transients env packages dependency_name allow_missing = Inr ts"
    and "(name root, m) \<in> (walk_edge env packages)\<^sup>*"
    and "expands env packages m p"
  shows "p \<in> set ts"
proof -
  obtain r st where r: "find_deps_of_deps env packages allow_missing (name root) initial_state = (r, st)"
    by (cases "find_deps_of_deps env packages allow_missing (name root) initial_state")
  show ?thesis
  proof (cases r)
    case Returned
    with identify_transients_returned [OF assms(1), of env allow_missing st] r assms(3)
    have "ts = transients st" by simp
    with reachable_included [OF r [unfolded Returned] assms(4,5)] show ?thesis by simp
  next
    case (Raised err)
    with identify_transients_raised [OF assms(1), of env allow_missing err st] r assms(2,3)
    show ?thesis by (simp add: on_key_error_def split: if_splits)
  qed
qed

text \<open>
  Claim C5. Let \<open>nm\<close> be an unsafe package name and let the store file every package
  under its own name. With \<open>nm\<close> as the root, \<^verbatim>\<open>identify_transients\<close> returns the
  empty list, whether \<open>nm\<close> is a key of the store or not. Met in the traversal, the
  call of the helper for \<open>nm\<close> returns at once: it marks the name as searched, adds
  nothing to \<open>transients\<close> and calls nothing else; the loop that met it goes on with
  the requirements that follow. No list \<^verbatim>\<open>identify_transients\<close> returns holds a package
  of that name.
\<close>

theorem unsafe_package_skipped:
  assumes "nm \<in> UNSAFE_PACKAGES env"
    and "keyed_by_name packages"
  shows "identify_transients env packages nm allow_missing = Inr []
     \<and> (\<forall>st. find_deps_of_deps env packages allow_missing nm st = (Returned, enter nm st)
             \<and> transients (enter nm st) = transients st
             \<and> calls (enter nm st) = calls st @ [nm])
     \<and> (\<forall>dep deps st. dep_name dep = nm \<longrightarrow> nm \<notin> searched st \<longrightarrow>
           requires_loop env packages allow_missing (dep # deps) st =
             requires_loop env packages allow_missing deps (enter nm st))
     \<and> (\<forall>dependency_name ts.
           identify_transients env packages dependency_name allow_missing = Inr ts \<longrightarrow>
             (\<forall>p \<in> set ts. name p \<noteq> nm))"
proof (intro conjI allI impI ballI)
  show "identify_transients env packages nm allow_missing = Inr []"
  proof (cases "fmlookup packages nm")
    case None
    with assms(1) show ?thesis
      by (simp add: identify_transients_root_missing on_key_error_def)
  next
    case (Some root)
    with assms(2) have "name root = nm" by (rule keyed_by_nameD)
    with Some assms(1) show ?thesis
      by (simp add: identify_transients_def find_unsafe transients_enter)
  qed
next
  fix st
  show "find_deps_of_deps env packages allow_missing nm st = (Returned, enter nm st)"
    using assms(1) by (rule find_unsafe)
  show "transients (enter nm st) = transients st" by (rule transients_enter)
  show "calls (enter nm st) = calls st @ [nm]" by (rule calls_enter)
next
  fix dep :: dependency and deps and st :: state
  assume "dep_name dep = nm" "nm \<notin> searched st"
  with assms(1) show "requires_loop env packages allow_missing (dep # deps) st =
             requires_loop env packages allow_missing deps (enter nm st)"
    by (simp add: find_unsafe)
next
  fix dependency_name ts p
  assume "identify_transients env packages dependency_name allow_missing = Inr ts" "p \<in> set ts"
  then obtain m where "expands env packages m p" by (blast dest: result_packages_expand)
  with assms(2) have "name p = m" "m \<notin> UNSAFE_PACKAGES env"
    by (auto simp: expands_def dest: keyed_by_nameD)
  with assms(1) show "name p \<noteq> nm" by auto
qed

theorem unsafe_package_skipped_witness:
  "''pip'' \<in> UNSAFE_PACKAGES example_env
   \<and> ''setuptools'' \<in> UNSAFE_PACKAGES example_env
   \<and> keyed_by_name unsafe_store
   \<and> fmlookup unsafe_store ''pip'' = Some (mk_package ''pip'' [''x''])
   \<and> fmlookup unsafe_store ''setuptools'' = None
   \<and> identify_transients example_env unsafe_store ''pip'' [] = Inr []
   \<and> identify_transients example_env unsafe_store ''setuptools'' [] = Inr []
   \<and> identify_transients example_env unsafe_store ''a'' [] =
       Inr [mk_package ''c'' [], mk_package ''a'' [''pip'', ''c'']]
   \<and> calls (snd (find_deps_of_deps example_env unsafe_store [] ''a'' initial_state)) =
       [''a'', ''pip'', ''c'']"
proof -
  have u1: "''pip'' \<in> UNSAFE_PACKAGES example_env"
    and u2: "''setuptools'' \<in> UNSAFE_PACKAGES example_env"
    by (simp_all add: example_env_def)
  have wf: "keyed_by_name unsafe_store"
    by (auto simp: keyed_by_name_def fmpred_iff unsafe_store_def fmlookup_of_list mk_package_def
             split: if_splits)
  have l1: "fmlookup unsafe_store ''pip'' = Some (mk_package ''pip'' [''x''])"
    and l2: "fmlookup unsafe_store ''setuptools'' = None"
    by (simp_all add: unsafe_store_def fmlookup_of_list)
  have val: "find_deps_of_deps example_env unsafe_store [] ''a'' initial_state =
      (Returned, \<lparr>searched = {''a'', ''pip'', ''c''},
         transients = [mk_package ''c'' [], mk_package ''a'' [''pip'', ''c'']],
         calls = [''a'', ''pip'', ''c'']\<rparr>)"
    by (simp add: unsafe_store_def fmlookup_of_list mk_package_def
          find_deps_of_deps.simps initial_state_def enter_def example_env_def insert_commute)
  have a: "identify_transients example_env unsafe_store ''a'' [] =
       Inr [mk_package ''c'' [], mk_package ''a'' [''pip'', ''c'']]"
    using val by (simp add: identify_transients_def unsafe_store_def fmlookup_of_list mk_package_def)
  from unsafe_package_skipped [OF u1 wf, of "[]"] unsafe_package_skipped [OF u2 wf, of "[]"]
  have "identify_transients example_env unsafe_store ''pip'' [] = Inr []"
    and "identify_transients example_env unsafe_store ''setuptools'' [] = Inr []"
    by simp_all
  with u1 u2 wf l1 l2 a val show ?thesis by simp
qed

text \<open>
  Claim C4. Let \<open>pkg\<close>, filed under \<open>nm\<close>, be incompatible: its interpreter
  constraint does not admit the running version, or it names a platform other than the
  running one. The call of the helper for \<open>nm\<close> returns at once without raising: it
  marks the name as searched, adds nothing to \<open>transients\<close> and calls nothing else,
  so no requirement of \<open>pkg\<close> is visited through it. No list
  \<^verbatim>\<open>identify_transients\<close> returns holds \<open>pkg\<close>. A package that can be reached from
  the root along requirements of packages that are walked (safe and compatible ones) is
  in the list all the same, whether or not \<open>pkg\<close> requires it too.
\<close>

theorem incompatible_package_pruned:
  assumes "fmlookup packages nm = Some pkg"
    and "\<not> compatible env pkg"
  shows "(\<forall>st. find_deps_of_deps env packages allow_missing nm st = (Returned, enter nm st)
             \<and> transients (enter nm st) = transients st
             \<and> calls (enter nm st) = calls st @ [nm])
     \<and> (\<forall>dependency_name ts.
           identify_transients env packages dependency_name allow_missing = Inr ts \<longrightarrow>
             pkg \<notin> set ts)
     \<and> (\<forall>dependency_name root ts m p.
           fmlookup packages dependency_name = Some root \<longrightarrow>
           dependency_name \<notin> UNSAFE_PACKAGES env \<longrightarrow>
           identify_transients env packages dependency_name allow_missing = Inr ts \<longrightarrow>
           (name root, m) \<in> (walk_edge env packages)\<^sup>* \<longrightarrow>
           expands env packages m p \<longrightarrow>
             p \<in> set ts)"
proof (intro conjI allI impI)
  fix st
  show "find_deps_of_deps env packages allow_missing nm st = (Returned, enter nm st)"
    using assms by (rule find_incompatible)
  show "transients (enter nm st) = transients st" by (rule transients_enter)
  show "calls (enter nm st) = calls st @ [nm]" by (rule calls_enter)
next
  fix dependency_name ts
  assume ts: "identify_transients env packages dependency_name allow_missing = Inr ts"
  show "pkg \<notin> set ts"
  proof
    assume "pkg \<in> set ts"
    with ts obtain m where "expands env packages m pkg" by (blast dest: result_packages_expand)
    with assms(2) show False by (simp add: expands_def)
  qed
next
  fix dependency_name root ts m p
  assume "fmlookup packages dependency_name = Some root"
    "dependency_name \<notin> UNSAFE_PACKAGES env"
    "identify_transients env packages dependency_name allow_missing = Inr ts"
    "(name root, m) \<in> (walk_edge env packages)\<^sup>*"
    "expands env packages m p"
  then show "p \<in> set ts" by (rule result_includes_walked)
qed

theorem incompatible_package_pruned_witness:
  "fmlookup pruned_store ''r'' =
       Some ((mk_package ''r'' [''c'', ''x''])\<lparr>python_constraint := (\<lambda>v. False)\<rparr>)
   \<and> \<not> compatible example_env ((mk_package ''r'' [''c'', ''x''])\<lparr>python_constraint := (\<lambda>v. False)\<rparr>)
   \<and> fmlookup pruned_store ''w'' = Some ((mk_package ''w'' [''y''])\<lparr>platform := Some ''win32''\<rparr>)
   \<and> \<not> compatible example_env ((mk_package ''w'' [''y''])\<lparr>platform := Some ''win32''\<rparr>)
   \<and> identify_transients example_env pruned_store ''a'' [] =
       Inr [mk_package ''c'' [], mk_package ''a'' [''r'', ''w'', ''c'']]
   \<and> calls (snd (find_deps_of_deps example_env pruned_store [] ''a'' initial_state)) =
       [''a'', ''r'', ''w'', ''c'']
   \<and> (mk_package ''r'' [''c'', ''x''])\<lparr>python_constraint := (\<lambda>v. False)\<rparr> \<notin>
       set [mk_package ''c'' [], mk_package ''a'' [''r'', ''w'', ''c'']]
   \<and> (mk_package ''w'' [''y''])\<lparr>platform := Some ''win32''\<rparr> \<notin>
       set [mk_package ''c'' [], mk_package ''a'' [''r'', ''w'', ''c'']]
   \<and> mk_package ''c'' [] \<in> set [mk_package ''c'' [], mk_package ''a'' [''r'', ''w'', ''c'']]"
proof -
  let ?r = "(mk_package ''r'' [''c'', ''x''])\<lparr>python_constraint := (\<lambda>v. False)\<rparr>"
  let ?w = "(mk_package ''w'' [''y''])\<lparr>platform := Some ''win32''\<rparr>"
  let ?a = "mk_package ''a'' [''r'', ''w'', ''c'']"
  have lr: "fmlookup pruned_store ''r'' = Some ?r"
    and lw: "fmlookup pruned_store ''w'' = Some ?w"
    and la: "fmlookup pruned_store ''a'' = Some ?a"
    by (simp_all add: pruned_store_def fmlookup_of_list)
  have ir: "\<not> compatible example_env ?r"
    and iw: "\<not> compatible example_env ?w"
    by (simp_all add: compatible_def mk_package_def example_env_def)
  have val: "find_deps_of_deps example_env pruned_store [] ''a'' initial_state =
      (Returned, \<lparr>searched = {''a'', ''r'', ''w'', ''c''},
         transients = [mk_package ''c'' [], ?a],
         calls = [''a'', ''r'', ''w'', ''c'']\<rparr>)"
    by (simp add: pruned_store_def fmlookup_of_list mk_package_def
          find_deps_of_deps.simps initial_state_def enter_def example_env_def insert_commute)
  have a: "identify_transients example_env pruned_store ''a'' [] = Inr [mk_package ''c'' [], ?a]"
    using val by (simp add: identify_transients_def pruned_store_def fmlookup_of_list mk_package_def)
  have safe: "''a'' \<notin> UNSAFE_PACKAGES example_env"
    by (simp add: example_env_def)
  have ea: "expands example_env pruned_store ''a'' ?a"
    and ec: "expands example_env pruned_store ''c'' (mk_package ''c'' [])"
    by (simp_all add: expands_def compatible_def pruned_store_def fmlookup_of_list
          mk_package_def example_env_def)
  have "(''a'', ''c'') \<in> walk_edge example_env pruned_store"
    unfolding walk_edge_def using ea by (auto simp: mk_package_def)
  then have walk: "(name ?a, ''c'') \<in> (walk_edge example_env pruned_store)\<^sup>*"
    by (simp add: mk_package_def)
  from incompatible_package_pruned [OF lr ir, of "[]"] a la safe walk ec
  have "?r \<notin> set [mk_package ''c'' [], ?a]"
    and "mk_package ''c'' [] \<in> set [mk_package ''c'' [], ?a]"
    by blast+
  moreover from incompatible_package_pruned [OF lw iw, of "[]"] a
  have "?w \<notin> set [mk_package ''c'' [], ?a]"
    by blast
  ultimately show ?thesis
    using lr lw ir iw a val by simp
qed

text \<open>
  Claim C6. Let \<open>nm\<close> be no key of the store and a member of \<open>allow_missing\<close>. The
  call of the helper for \<open>nm\<close> returns without raising and adds nothing to
  \<open>transients\<close>; the loop that met \<open>nm\<close> as a requirement goes on with the
  requirements that follow it. When every name that can be reached from a root is a key
  of the store, unsafe or allowed to be missing, the whole call returns a list, and the
  list holds every package that can be reached from the root along requirements of
  packages that are walked.
\<close>

theorem allowed_missing_requirement_skipped:
  assumes "fmlookup packages nm = None"
    and "nm \<in> set allow_missing"
  shows "(\<forall>st. find_deps_of_deps env packages allow_missing nm st = (Returned, enter nm st)
             \<and> transients (enter nm st) = transients st)
     \<and> (\<forall>dep deps st. dep_name dep = nm \<longrightarrow> nm \<notin> searched st \<longrightarrow>
           requires_loop env packages allow_missing (dep # deps) st =
             requires_loop env packages allow_missing deps (enter nm st))
     \<and> (\<forall>dependency_name root.
           fmlookup packages dependency_name = Some root \<longrightarrow>
           (\<forall>m. (name root, m) \<in> (requires_edge packages)\<^sup>* \<longrightarrow>
                 resolvable env packages allow_missing m) \<longrightarrow>
           (\<exists>ts. identify_transients env packages dependency_name allow_missing = Inr ts
              \<and> (\<forall>m p. (name root, m) \<in> (walk_edge env packages)\<^sup>* \<longrightarrow>
                         expands env packages m p \<longrightarrow> p \<in> set ts)))"
proof (intro conjI allI impI)
  have f: "find_deps_of_deps env packages allow_missing nm st = (Returned, enter nm st)" for st
    using assms by (cases "nm \<in> UNSAFE_PACKAGES env") (simp_all add: find_unsafe find_missing)
  fix st
  show "find_deps_of_deps env packages allow_missing nm st = (Returned, enter nm st)"
    by (rule f)
  show "transients (enter nm st) = transients st" by (rule transients_enter)
  fix dep :: dependency and deps
  assume "dep_name dep = nm" "nm \<notin> searched st"
  then show "requires_loop env packages allow_missing (dep # deps) st =
             requires_loop env packages allow_missing deps (enter nm st)"
    by (simp add: f)
next
  fix dependency_name root
  assume root: "fmlookup packages dependency_name = Some root"
    and res: "\<forall>m. (name root, m) \<in> (requires_edge packages)\<^sup>* \<longrightarrow>
                 resolvable env packages allow_missing m"
  obtain r st where r: "find_deps_of_deps env packages allow_missing (name root) initial_state = (r, st)"
    by (cases "find_deps_of_deps env packages allow_missing (name root) initial_state")
  from returns_when_reachable_resolvable(1) [OF res, of initial_state] r
  have ret: "r = Returned" by simp
  from identify_transients_returned [OF root, of env allow_missing st] r ret
  have "identify_transients env packages dependency_name allow_missing = Inr (transients st)"
    by simp
  moreover have "p \<in> set (transients st)"
    if "(name root, m) \<in> (walk_edge env packages)\<^sup>*" "expands env packages m p" for m p
    using r [unfolded ret] that by (rule reachable_included)
  ultimately show "\<exists>ts. identify_transients env packages dependency_name allow_missing = Inr ts
              \<and> (\<forall>m p. (name root, m) \<in> (walk_edge env packages)\<^sup>* \<longrightarrow>
                         expands env packages m p \<longrightarrow> p \<in> set ts)"
    by blast
qed

lemma self_store_edges:
  "requires_edge self_store = {(''a'', ''myproject''), (''a'', ''c'')}"
  by (auto simp: requires_edge_def self_store_def fmlookup_of_list mk_package_def
           split: if_splits)

theorem allowed_missing_requirement_skipped_witness:
  "fmlookup self_store ''myproject'' = None
   \<and> ''myproject'' \<in> set [''myproject'']
   \<and> fmlookup self_store ''a'' = Some (mk_package ''a'' [''myproject'', ''c''])
   \<and> identify_transients example_env self_store ''a'' [''myproject''] =
       Inr [mk_package ''c'' [], mk_package ''a'' [''myproject'', ''c'']]
   \<and> identify_transients example_env self_store ''a'' [] =
       Inl (LockedDepNotFoundError ''a'')
   \<and> calls (snd (find_deps_of_deps example_env self_store [''myproject''] ''a'' initial_state)) =
       [''a'', ''myproject'', ''c'']"
proof -
  let ?a = "mk_package ''a'' [''myproject'', ''c'']"
  have l: "fmlookup self_store ''myproject'' = None"
    and la: "fmlookup self_store ''a'' = Some ?a"
    by (simp_all add: self_store_def fmlookup_of_list)
  have am: "''myproject'' \<in> set [''myproject'']" by simp
  have nm: "name ?a = ''a''" by (simp add: mk_package_def)
  have res: "\<forall>m. (name ?a, m) \<in> (requires_edge self_store)\<^sup>* \<longrightarrow>
      resolvable example_env self_store [''myproject''] m"
  proof (intro allI impI)
    fix m
    assume "(name ?a, m) \<in> (requires_edge self_store)\<^sup>*"
    then have "m \<in> {''a'', ''myproject'', ''c''}"
      unfolding nm by (rule reachable_closed) (auto simp: self_store_edges)
    then show "resolvable example_env self_store [''myproject''] m"
      by (auto simp: resolvable_def self_store_def fmlookup_dom'_iff fmlookup_of_list)
  qed
  have val: "find_deps_of_deps example_env self_store [''myproject''] ''a'' initial_state =
      (Returned, \<lparr>searched = {''a'', ''myproject'', ''c''},
         transients = [mk_package ''c'' [], ?a],
         calls = [''a'', ''myproject'', ''c'']\<rparr>)"
    by (simp add: self_store_def fmlookup_of_list mk_package_def
          find_deps_of_deps.simps initial_state_def enter_def example_env_def insert_commute)
  have strict: "identify_transients example_env self_store ''a'' [] =
       Inl (LockedDepNotFoundError ''a'')"
    by (simp add: identify_transients_def self_store_def fmlookup_of_list mk_package_def
          find_deps_of_deps.simps initial_state_def enter_def example_env_def on_key_error_def
          sublist_code(3))
  from allowed_missing_requirement_skipped [OF l am, of example_env] la res
  obtain ts where "identify_transients example_env self_store ''a'' [''myproject''] = Inr ts"
    by blast
  moreover from val la
  have "identify_transients example_env self_store ''a'' [''myproject''] =
      Inr [mk_package ''c'' [], ?a]"
    by (simp add: identify_transients_def nm)
  ultimately show ?thesis
    using l la val strict by simp
qed

section \<open>The builders concatenate\<close>

lemma distinct_count_list:
  "distinct xs \<Longrightarrow> count_list xs x = (if x \<in> set xs then 1 else 0)"
  by (induct xs) auto

lemma count_list_concat_distinct:
  "\<forall>ts \<in> set tss. distinct ts \<Longrightarrow>
     count_list (concat tss) p = length (filter (\<lambda>ts. p \<in> set ts) tss)"
  by (induct tss) (simp_all add: distinct_count_list)

lemma identify_transients_distinct:
  assumes "keyed_by_name packages"
    and "identify_transients env packages dependency_name allow_missing = Inr ts"
  shows "distinct ts"
  using assms(2)
proof (cases rule: identify_transients_Inr_cases)
  case empty
  then show ?thesis by simp
next
  case (walked root st)
  with transients_expand(2) [OF walked(2) assms(1)] show ?thesis by simp
qed

text \<open>
  The three loops. Each returns a list exactly when every root resolves, and the list
  is then what was gathered before, followed by the lists of the roots in their order;
  the first root that fails ends the loop with its error.
\<close>

lemma env_loop_concat:
  "env_loop env po packages deps acc = Inr dependencies \<longleftrightarrow>
     (\<exists>tss. map (\<lambda>dep. identify_transients env packages (lower env dep) [package_name po]) deps =
              map Inr tss
        \<and> dependencies = acc @ concat tss)"
proof (induct deps arbitrary: acc)
  case Nil
  then show ?case by auto
next
  case (Cons dep deps)
  show ?case
  proof (cases "identify_transients env packages (lower env dep) [package_name po]")
    case (Inl err)
    then show ?thesis by (auto simp: Cons_eq_map_conv)
  next
    case (Inr ts)
    have "(\<exists>tss. map (\<lambda>dep. identify_transients env packages (lower env dep) [package_name po])
                 (dep # deps) = map Inr tss \<and> dependencies = acc @ concat tss) \<longleftrightarrow>
          (\<exists>tss. map (\<lambda>dep. identify_transients env packages (lower env dep) [package_name po])
                 deps = map Inr tss \<and> dependencies = (acc @ ts) @ concat tss)"
      using Inr by (auto simp: Cons_eq_map_conv)
    with Cons [of "acc @ ts"] Inr show ?thesis by simp
  qed
qed

lemma dev_loop_concat:
  "dev_loop env po packages deps acc = Inr dependencies \<longleftrightarrow>
     (\<exists>tss. map (\<lambda>dep. identify_transients env packages dep [package_name po]) deps =
              map Inr tss
        \<and> dependencies = acc @ concat tss)"
proof (induct deps arbitrary: acc)
  case Nil
  then show ?case by auto
next
  case (Cons dep deps)
  show ?case
  proof (cases "identify_transients env packages dep [package_name po]")
    case (Inl err)
    then show ?thesis by (auto simp: Cons_eq_map_conv)
  next
    case (Inr ts)
    have "(\<exists>tss. map (\<lambda>dep. identify_transients env packages dep [package_name po])
                 (dep # deps) = map Inr tss \<and> dependencies = acc @ concat tss) \<longleftrightarrow>
          (\<exists>tss. map (\<lambda>dep. identify_transients env packages dep [package_name po])
                 deps = map Inr tss \<and> dependencies = (acc @ ts) @ concat tss)"
      using Inr by (auto simp: Cons_eq_map_conv)
    with Cons [of "acc @ ts"] Inr show ?thesis by simp
  qed
qed

lemma project_loop_concat:
  "project_loop env po packages deps acc = Inr dependencies \<longleftrightarrow>
     (\<exists>tss. map (\<lambda>dep. identify_transients env packages (lower env (name dep)) [package_name po])
               deps = map Inr tss
        \<and> dependencies = acc @ concat tss)"
proof (induct deps arbitrary: acc)
  case Nil
  then show ?case by auto
next
  case (Cons dep deps)
  show ?case
  proof (cases "identify_transients env packages (lower env (name dep)) [package_name po]")
    case (Inl err)
    then show ?thesis by (auto simp: Cons_eq_map_conv)
  next
    case (Inr ts)
    have "(\<exists>tss. map (\<lambda>dep. identify_transients env packages (lower env (name dep))
                   [package_name po]) (dep # deps) = map Inr tss
              \<and> dependencies = acc @ concat tss) \<longleftrightarrow>
          (\<exists>tss. map (\<lambda>dep. identify_transients env packages (lower env (name dep))
                   [package_name po]) deps = map Inr tss
              \<and> dependencies = (acc @ ts) @ concat tss)"
      using Inr by (auto simp: Cons_eq_map_conv)
    with Cons [of "acc @ ts"] Inr show ?thesis by simp
  qed
qed

lemma env_loop_first_failure:
  assumes "map (\<lambda>dep. identify_transients env packages (lower env dep) [package_name po]) pre =
      map Inr tss"
    and "identify_transients env packages (lower env dep) [package_name po] = Inl err"
  shows "env_loop env po packages (pre @ dep # post) acc = Inl err"
  using assms by (induct pre arbitrary: acc tss) (auto simp: Cons_eq_map_conv)

lemma dev_loop_first_failure:
  assumes "map (\<lambda>dep. identify_transients env packages dep [package_name po]) pre = map Inr tss"
    and "identify_transients env packages dep [package_name po] = Inl err"
  shows "dev_loop env po packages (pre @ dep # post) acc = Inl err"
  using assms by (induct pre arbitrary: acc tss) (auto simp: Cons_eq_map_conv)

lemma project_loop_first_failure:
  assumes "map (\<lambda>dep. identify_transients env packages (lower env (name dep)) [package_name po])
      pre = map Inr tss"
    and "identify_transients env packages (lower env (name dep)) [package_name po] = Inl err"
  shows "project_loop env po packages (pre @ dep # post) acc = Inl err"
  using assms by (induct pre arbitrary: acc tss) (auto simp: Cons_eq_map_conv)

lemma per_root_lists:
  assumes "keyed_by_name packages"
    and "map (\<lambda>dep. identify_transients env packages (f dep) allow_missing) deps = map Inr tss"
  shows "\<forall>ts \<in> set tss. distinct ts"
proof
  fix ts
  assume "ts \<in> set tss"
  then have "Inr ts \<in> set (map (\<lambda>dep. identify_transients env packages (f dep) allow_missing) deps)"
    unfolding assms(2) by simp
  then obtain dep where "identify_transients env packages (f dep) allow_missing = Inr ts"
    by auto
  with assms(1) show "distinct ts" by (rule identify_transients_distinct)
qed

text \<open>
  Claim C8. Let the store file every package under its own name. A builder returns a
  list exactly when \<^verbatim>\<open>identify_transients\<close> returns a list for each of its roots, and
  the list is then the concatenation of those lists, in the order of the roots, with
  nothing removed: each of them holds no package twice, and a package occurs in the
  merged list as many times as there are roots whose list holds it. The first root
  that fails ends the builder with its error. This is so for \<^verbatim>\<open>find_env_dependencies\<close>
  (roots: the locked dependencies, lowercased), \<^verbatim>\<open>find_dev_dependencies\<close> (roots: the
  dev dependencies as written) and \<^verbatim>\<open>find_project_dependencies\<close> (roots: the lowercased
  names of the packages of the project's requirements that are not optional, then of
  the requested extras).
\<close>

theorem builders_keep_duplicates:
  assumes "keyed_by_name packages"
  shows "(\<forall>dependencies. find_env_dependencies env ve po packages = Inr dependencies \<longrightarrow>
       (\<exists>tss. map (\<lambda>dep. identify_transients env packages (lower env dep) [package_name po]) (locked_deps ve) = map Inr tss
          \<and> dependencies = concat tss
          \<and> (\<forall>ts \<in> set tss. distinct ts)
          \<and> (\<forall>p. count_list dependencies p = length (filter (\<lambda>ts. p \<in> set ts) tss))))
     \<and> (\<forall>tss. map (\<lambda>dep. identify_transients env packages (lower env dep) [package_name po]) (locked_deps ve) = map Inr tss \<longrightarrow>
           find_env_dependencies env ve po packages = Inr (concat tss))
     \<and> (\<forall>pre dep post tss err. locked_deps ve = pre @ dep # post \<longrightarrow>
           map (\<lambda>dep. identify_transients env packages (lower env dep) [package_name po]) pre = map Inr tss \<longrightarrow>
           identify_transients env packages (lower env dep) [package_name po] = Inl err \<longrightarrow>
           find_env_dependencies env ve po packages = Inl err)
     \<and> (\<forall>dependencies. find_dev_dependencies env po packages = Inr dependencies \<longrightarrow>
       (\<exists>tss. map (\<lambda>dep. identify_transients env packages dep [package_name po]) (dev_dependencies po) = map Inr tss
          \<and> dependencies = concat tss
          \<and> (\<forall>ts \<in> set tss. distinct ts)
          \<and> (\<forall>p. count_list dependencies p = length (filter (\<lambda>ts. p \<in> set ts) tss))))
     \<and> (\<forall>tss. map (\<lambda>dep. identify_transients env packages dep [package_name po]) (dev_dependencies po) = map Inr tss \<longrightarrow>
           find_dev_dependencies env po packages = Inr (concat tss))
     \<and> (\<forall>pre dep post tss err. dev_dependencies po = pre @ dep # post \<longrightarrow>
           map (\<lambda>dep. identify_transients env packages dep [package_name po]) pre = map Inr tss \<longrightarrow>
           identify_transients env packages dep [package_name po] = Inl err \<longrightarrow>
           find_dev_dependencies env po packages = Inl err)
     \<and> (\<forall>dependencies. find_project_dependencies env ve po packages = Inr dependencies \<longrightarrow>
       (\<exists>base_dependencies extra_dependencies tss.
            lookup_all packages (filter (\<lambda>item. \<not> is_optional item) (package_requires po)) =
              Inr base_dependencies
          \<and> extras_loop po packages (extras ve) [] = Inr extra_dependencies
          \<and> map (\<lambda>dep. identify_transients env packages (lower env (name dep)) [package_name po])
                 (base_dependencies @ extra_dependencies) = map Inr tss
          \<and> dependencies = concat tss
          \<and> (\<forall>ts \<in> set tss. distinct ts)
          \<and> (\<forall>p. count_list dependencies p = length (filter (\<lambda>ts. p \<in> set ts) tss))))
     \<and> (\<forall>base_dependencies extra_dependencies tss.
           lookup_all packages (filter (\<lambda>item. \<not> is_optional item) (package_requires po)) =
             Inr base_dependencies \<longrightarrow>
           extras_loop po packages (extras ve) [] = Inr extra_dependencies \<longrightarrow>
           map (\<lambda>dep. identify_transients env packages (lower env (name dep)) [package_name po])
             (base_dependencies @ extra_dependencies) = map Inr tss \<longrightarrow>
           find_project_dependencies env ve po packages = Inr (concat tss))
     \<and> (\<forall>base_dependencies extra_dependencies pre dep post tss err.
           lookup_all packages (filter (\<lambda>item. \<not> is_optional item) (package_requires po)) =
             Inr base_dependencies \<longrightarrow>
           extras_loop po packages (extras ve) [] = Inr extra_dependencies \<longrightarrow>
           base_dependencies @ extra_dependencies = pre @ dep # post \<longrightarrow>
           map (\<lambda>dep. identify_transients env packages (lower env (name dep)) [package_name po]) pre =
             map Inr tss \<longrightarrow>
           identify_transients env packages (lower env (name dep)) [package_name po] = Inl err \<longrightarrow>
           find_project_dependencies env ve po packages = Inl err)"
proof (intro conjI allI impI)
  fix dependencies
  assume "find_env_dependencies env ve po packages = Inr dependencies"
  then obtain tss where tss:
    "map (\<lambda>dep. identify_transients env packages (lower env dep) [package_name po]) (locked_deps ve) =
       map Inr tss"
    "dependencies = concat tss"
    unfolding find_env_dependencies_def env_loop_concat by auto
  from per_root_lists [OF assms tss(1)] have d: "\<forall>ts \<in> set tss. distinct ts" .
  with tss count_list_concat_distinct [OF d]
  show "\<exists>tss. map (\<lambda>dep. identify_transients env packages (lower env dep) [package_name po])
                 (locked_deps ve) = map Inr tss
          \<and> dependencies = concat tss
          \<and> (\<forall>ts \<in> set tss. distinct ts)
          \<and> (\<forall>p. count_list dependencies p = length (filter (\<lambda>ts. p \<in> set ts) tss))"
    by blast
next
  fix tss
  assume "map (\<lambda>dep. identify_transients env packages (lower env dep) [package_name po]) (locked_deps ve) = map Inr tss"
  then show "find_env_dependencies env ve po packages = Inr (concat tss)"
    unfolding find_env_dependencies_def env_loop_concat by auto
next
  fix pre dep post tss err
  assume "locked_deps ve = pre @ dep # post"
    "map (\<lambda>dep. identify_transients env packages (lower env dep) [package_name po]) pre = map Inr tss"
    "identify_transients env packages (lower env dep) [package_name po] = Inl err"
  then show "find_env_dependencies env ve po packages = Inl err"
    by (simp add: find_env_dependencies_def env_loop_first_failure)
next
  fix dependencies
  assume "find_dev_dependencies env po packages = Inr dependencies"
  then obtain tss where tss:
    "map (\<lambda>dep. identify_transients env packages dep [package_name po]) (dev_dependencies po) =
       map Inr tss"
    "dependencies = concat tss"
    unfolding find_dev_dependencies_def dev_loop_concat by auto
  from per_root_lists [OF assms, of env "\<lambda>dep. dep", OF tss(1)]
  have d: "\<forall>ts \<in> set tss. distinct ts" .
  with tss count_list_concat_distinct [OF d]
  show "\<exists>tss. map (\<lambda>dep. identify_transients env packages dep [package_name po])
                 (dev_dependencies po) = map Inr tss
          \<and> dependencies = concat tss
          \<and> (\<forall>ts \<in> set tss. distinct ts)
          \<and> (\<forall>p. count_list dependencies p = length (filter (\<lambda>ts. p \<in> set ts) tss))"
    by blast
next
  fix tss
  assume "map (\<lambda>dep. identify_transients env packages dep [package_name po]) (dev_dependencies po) = map Inr tss"
  then show "find_dev_dependencies env po packages = Inr (concat tss)"
    unfolding find_dev_dependencies_def dev_loop_concat by auto
next
  fix pre dep post tss err
  assume "dev_dependencies po = pre @ dep # post"
    "map (\<lambda>dep. identify_transients env packages dep [package_name po]) pre = map Inr tss"
    "identify_transients env packages dep [package_name po] = Inl err"
  then show "find_dev_dependencies env po packages = Inl err"
    by (simp add: find_dev_dependencies_def dev_loop_first_failure)
next
  fix dependencies
  assume "find_project_dependencies env ve po packages = Inr dependencies"
  then obtain base_dependencies extra_dependencies where be:
    "lookup_all packages (filter (\<lambda>item. \<not> is_optional item) (package_requires po)) =
       Inr base_dependencies"
    "extras_loop po packages (extras ve) [] = Inr extra_dependencies"
    "project_loop env po packages (base_dependencies @ extra_dependencies) [] = Inr dependencies"
    unfolding find_project_dependencies_def by (auto split: sum.splits)
  from be(3) obtain tss where tss:
    "map (\<lambda>dep. identify_transients env packages (lower env (name dep)) [package_name po])
       (base_dependencies @ extra_dependencies) = map Inr tss"
    "dependencies = concat tss"
    unfolding project_loop_concat by auto
  from per_root_lists [OF assms, of env "\<lambda>dep. lower env (name dep)", OF tss(1)]
  have d: "\<forall>ts \<in> set tss. distinct ts" .
  with be(1,2) tss count_list_concat_distinct [OF d]
  show "\<exists>base_dependencies extra_dependencies tss.
            lookup_all packages (filter (\<lambda>item. \<not> is_optional item) (package_requires po)) =
              Inr base_dependencies
          \<and> extras_loop po packages (extras ve) [] = Inr extra_dependencies
          \<and> map (\<lambda>dep. identify_transients env packages (lower env (name dep)) [package_name po])
                 (base_dependencies @ extra_dependencies) = map Inr tss
          \<and> dependencies = concat tss
          \<and> (\<forall>ts \<in> set tss. distinct ts)
          \<and> (\<forall>p. count_list dependencies p = length (filter (\<lambda>ts. p \<in> set ts) tss))"
    by blast
next
  fix base_dependencies extra_dependencies tss
  assume "lookup_all packages (filter (\<lambda>item. \<not> is_optional item) (package_requires po)) = Inr base_dependencies"
    "extras_loop po packages (extras ve) [] = Inr extra_dependencies"
    "map (\<lambda>dep. identify_transients env packages (lower env (name dep)) [package_name po]) (base_dependencies @ extra_dependencies) = map Inr tss"
  then show "find_project_dependencies env ve po packages = Inr (concat tss)"
    unfolding find_project_dependencies_def
    using project_loop_concat [of env po packages "base_dependencies @ extra_dependencies" "[]" "concat tss"]
    by auto
next
  fix base_dependencies extra_dependencies pre dep post tss err
  assume "lookup_all packages (filter (\<lambda>item. \<not> is_optional item) (package_requires po)) = Inr base_dependencies"
    "extras_loop po packages (extras ve) [] = Inr extra_dependencies"
    "base_dependencies @ extra_dependencies = pre @ dep # post"
    "map (\<lambda>dep. identify_transients env packages (lower env (name dep)) [package_name po]) pre = map Inr tss"
    "identify_transients env packages (lower env (name dep)) [package_name po] = Inl err"
  then show "find_project_dependencies env ve po packages = Inl err"
    by (simp add: find_project_dependencies_def project_loop_first_failure)
qed

theorem builders_keep_duplicates_witness:
  "keyed_by_name shared_store
   \<and> identify_transients example_env shared_store ''a'' [''myproject''] =
       Inr [mk_package ''c'' [], mk_package ''a'' [''c'']]
   \<and> identify_transients example_env shared_store ''b'' [''myproject''] =
       Inr [mk_package ''c'' [], mk_package ''b'' [''c'']]
   \<and> find_env_dependencies example_env shared_venv shared_poetry shared_store =
       Inr [mk_package ''c'' [], mk_package ''a'' [''c''],
            mk_package ''c'' [], mk_package ''b'' [''c'']]
   \<and> find_dev_dependencies example_env shared_poetry shared_store =
       Inr [mk_package ''c'' [], mk_package ''a'' [''c''],
            mk_package ''c'' [], mk_package ''b'' [''c'']]
   \<and> find_project_dependencies example_env shared_venv shared_poetry shared_store =
       Inr [mk_package ''c'' [], mk_package ''a'' [''c''],
            mk_package ''c'' [], mk_package ''b'' [''c'']]
   \<and> count_list [mk_package ''c'' [], mk_package ''a'' [''c''],
                  mk_package ''c'' [], mk_package ''b'' [''c'']] (mk_package ''c'' []) = 2"
proof -
  let ?c = "mk_package ''c'' []"
  let ?a = "mk_package ''a'' [''c'']"
  let ?b = "mk_package ''b'' [''c'']"
  have wf: "keyed_by_name shared_store"
    by (auto simp: keyed_by_name_def fmpred_iff shared_store_def fmlookup_of_list mk_package_def
             split: if_splits)
  have a: "identify_transients example_env shared_store ''a'' [''myproject''] = Inr [?c, ?a]"
    and b: "identify_transients example_env shared_store ''b'' [''myproject''] = Inr [?c, ?b]"
    by (simp_all add: identify_transients_def shared_store_def fmlookup_of_list mk_package_def
          find_deps_of_deps.simps initial_state_def enter_def example_env_def)
  have low: "lower example_env ''A'' = ''a''" "lower example_env ''a'' = ''a''"
    "lower example_env ''b'' = ''b''"
    by (simp_all add: example_env_def ascii_lower_def ascii_lower_char_def)
  have nm: "name ?a = ''a''" "name ?b = ''b''"
    by (simp_all add: mk_package_def)
  note all = builders_keep_duplicates [OF wf, of example_env shared_venv shared_poetry]
  note env_only = all [THEN conjunct1, rule_format]
  note env_all = all [THEN conjunct2, THEN conjunct1, rule_format]
  note dev_all = all [THEN conjunct2, THEN conjunct2, THEN conjunct2, THEN conjunct2,
      THEN conjunct1, rule_format]
  note project_all = all [THEN conjunct2, THEN conjunct2, THEN conjunct2, THEN conjunct2,
      THEN conjunct2, THEN conjunct2, THEN conjunct2, THEN conjunct1, rule_format]
  have "map (\<lambda>dep. identify_transients example_env shared_store (lower example_env dep)
            [package_name shared_poetry]) (locked_deps shared_venv) =
        map Inr [[?c, ?a], [?c, ?b]]"
    by (simp add: shared_venv_def shared_poetry_def low a b)
  from env_all [OF this]
  have env: "find_env_dependencies example_env shared_venv shared_poetry shared_store =
      Inr [?c, ?a, ?c, ?b]"
    by simp
  have "map (\<lambda>dep. identify_transients example_env shared_store dep
            [package_name shared_poetry]) (dev_dependencies shared_poetry) =
        map Inr [[?c, ?a], [?c, ?b]]"
    by (simp add: shared_poetry_def a b)
  from dev_all [OF this]
  have dev: "find_dev_dependencies example_env shared_poetry shared_store =
      Inr [?c, ?a, ?c, ?b]"
    by simp
  have base: "lookup_all shared_store
        (filter (\<lambda>item. \<not> is_optional item) (package_requires shared_poetry)) = Inr [?a]"
    and extra: "extras_loop shared_poetry shared_store (extras shared_venv) [] = Inr [?b]"
    by (simp_all add: shared_poetry_def shared_venv_def shared_store_def fmlookup_of_list)
  have "map (\<lambda>dep. identify_transients example_env shared_store (lower example_env (name dep))
            [package_name shared_poetry]) ([?a] @ [?b]) =
        map Inr [[?c, ?a], [?c, ?b]]"
    using a b by (simp add: shared_poetry_def low nm)
  from project_all [OF base extra this]
  have project: "find_project_dependencies example_env shared_venv shared_poetry shared_store =
      Inr [?c, ?a, ?c, ?b]"
    by simp
  from env_only [OF env]
  obtain tss where tss:
    "map (\<lambda>dep. identify_transients example_env shared_store (lower example_env dep)
            [package_name shared_poetry]) (locked_deps shared_venv) = map Inr tss"
    "\<forall>p. count_list [?c, ?a, ?c, ?b] p = length (filter (\<lambda>ts. p \<in> set ts) tss)"
    by blast
  from tss(1) have "tss = [[?c, ?a], [?c, ?b]]"
    by (auto simp: shared_venv_def shared_poetry_def low a b Cons_eq_map_conv)
  moreover from tss(2)
  have "count_list [?c, ?a, ?c, ?b] ?c = length (filter (\<lambda>ts. ?c \<in> set ts) tss)"
    by blast
  ultimately have "count_list [?c, ?a, ?c, ?b] ?c = 2"
    by simp
  with wf a b env dev project show ?thesis by simp
qed

end
